theory Spec2Isabelle
  imports Complex_Main "HOL-Library.Sublist" "HOL-Library.AList"
begin

section \<open>JavaScript values, strings and errors\<close>

text \<open>
  The embedding follows \<^verbatim>\<open>assets/js/script.js\<close>. A thrown exception is a value of
  \<open>js_error\<close>; a function that may throw returns \<open>js_error + 'a\<close> with \<open>Inl\<close> for
  the exception. Dereferencing \<^verbatim>\<open>null\<close> (the result of a failed element lookup) is a
  \<open>TypeError\<close>.
\<close>

datatype js_error = TypeError | SyntaxError | NetworkFailure | Error string

text \<open>
  The fields of the two JSON data sources are strings or are left out. A field that
  is left out reads as \<^verbatim>\<open>undefined\<close>, a JSON \<^verbatim>\<open>null\<close> reads as \<^verbatim>\<open>null\<close>.
\<close>

datatype jsval = Undefined | Null | Str string

text \<open>JavaScript truthiness, the operator \<^verbatim>\<open>||\<close> and the string conversion that a
  template literal applies to an interpolated value.\<close>

fun truthy :: "jsval \<Rightarrow> bool" where
  "truthy Undefined = False"
| "truthy Null = False"
| "truthy (Str s) = (s \<noteq> [])"

definition js_or :: "jsval \<Rightarrow> jsval \<Rightarrow> jsval" where
  "js_or a b = (if truthy a then a else b)"

fun tpl :: "jsval \<Rightarrow> string" where
  "tpl Undefined = ''undefined''"
| "tpl Null = ''null''"
| "tpl (Str s) = s"

text \<open>\<^verbatim>\<open>s.includes(t)\<close>: \<open>t\<close> occurs in \<open>s\<close> as a contiguous substring.\<close>

fun includes_str :: "string \<Rightarrow> string \<Rightarrow> bool" where
  "includes_str [] t = (t = [])"
| "includes_str (c # cs) t = (prefix t (c # cs) \<or> includes_str cs t)"

text \<open>\<^verbatim>\<open>s.split(sep)\<close> for a one-character separator: the pieces between the
  occurrences of \<open>sep\<close>; the result is never the empty array.\<close>

fun split :: "char \<Rightarrow> string \<Rightarrow> string list" where
  "split sep [] = [[]]"
| "split sep (c # cs) =
     (if c = sep then [] # split sep cs
      else (case split sep cs of [] \<Rightarrow> [[c]] | p # ps \<Rightarrow> (c # p) # ps))"

text \<open>\<^verbatim>\<open>a[0]\<close> inside a string concatenation: an empty array would give
  \<^verbatim>\<open>undefined\<close>, printed as such.\<close>

fun first_piece :: "string list \<Rightarrow> string" where
  "first_piece [] = ''undefined''"
| "first_piece (p # ps) = p"

definition startsWith :: "string \<Rightarrow> string \<Rightarrow> bool" where
  "startsWith s t = prefix t s"

definition substring :: "string \<Rightarrow> nat \<Rightarrow> string" where
  "substring s k = drop k s"

section \<open>Numbers\<close>

text \<open>
  A number of the script is a double. The model holds it as the real it stands for and
  rounds every sum whose operands need not be integers to the nearest double, ties to
  the even significand: a double has 53 significant bits, so the doubles between
  \<open>2^e\<close> and \<open>2^(e+1)\<close> are \<open>2^(e-52)\<close> apart, and \<open>2^(-1074)\<close> apart below \<open>2^(-1022)\<close>.
  (The sums of the script stay far below the largest double, so no sum is infinite.)
\<close>

fun bit_length :: "nat \<Rightarrow> nat" where
  "bit_length n = (if n = 0 then 0 else Suc (bit_length (n div 2)))"

declare bit_length.simps [simp del]

text \<open>\<open>binade x\<close> is the \<open>e\<close> with \<open>2^e \<le> |x| < 2^(e+1)\<close>, for \<open>x\<close> other than 0.\<close>

definition binade :: "real \<Rightarrow> int" where
  "binade x =
     (let a = \<bar>x\<bar> in
      if 1 \<le> a then int (bit_length (nat \<lfloor>a\<rfloor>)) - 1
      else - int (bit_length (nat \<lceil>1 / a\<rceil> - 1)))"

definition pow2 :: "int \<Rightarrow> real" where
  "pow2 k = (if 0 \<le> k then 2 ^ nat k else 1 / 2 ^ nat (- k))"

definition round_half_even :: "real \<Rightarrow> int" where
  "round_half_even r =
     (let f = \<lfloor>r\<rfloor>; t = r - of_int f in
      if t < 1 / 2 then f else if 1 / 2 < t then f + 1 else if even f then f else f + 1)"

definition to_double :: "real \<Rightarrow> real" where
  "to_double x =
     (if x = 0 then 0
      else (let q = max (binade x) (- 1022) - 52
            in of_int (round_half_even (x / pow2 q)) * pow2 q))"

text \<open>The operator \<^verbatim>\<open>+\<close> on two numbers.\<close>

definition js_add :: "real \<Rightarrow> real \<Rightarrow> real" where
  "js_add x y = to_double (x + y)"

section \<open>Unsplash URL helper\<close>

text \<open>
  \<^verbatim>\<open>
  function unsplashUrl(url, querystring) {
      if (!url || !url.includes('images.unsplash.com')) return url;
      return url.split('?')[0] + '?' + querystring;
  }
  \<close>
\<close>

definition unsplashUrl :: "jsval \<Rightarrow> string \<Rightarrow> jsval" where
  "unsplashUrl url querystring =
     (case url of
        Str u \<Rightarrow>
          if \<not> truthy url \<or> \<not> includes_str u ''images.unsplash.com'' then url
          else Str (first_piece (split (CHR ''?'') u) @ ''?'' @ querystring)
      | _ \<Rightarrow> url)"

text \<open>
  The specification speaks of a URL that points at the image host. Following its
  words, \<open>spec_url_host\<close> reads the host of an absolute URL: the text after
  \<^verbatim>\<open>://\<close> up to the next \<^verbatim>\<open>/\<close>, \<^verbatim>\<open>?\<close> or \<^verbatim>\<open>#\<close>. It is compared with the substring
  test of the code.
\<close>

fun after_scheme :: "string \<Rightarrow> string" where
  "after_scheme [] = []"
| "after_scheme (c # cs) =
     (if prefix ''://'' (c # cs) then drop 3 (c # cs) else after_scheme cs)"

definition spec_url_host :: "string \<Rightarrow> string" where
  "spec_url_host u =
     takeWhile (\<lambda>c. c \<noteq> CHR ''/'' \<and> c \<noteq> CHR ''?'' \<and> c \<noteq> CHR ''#'') (after_scheme u)"

section \<open>Card records and templates\<close>

record destination =
  d_image :: jsval
  d_region :: jsval
  d_name :: jsval
  d_tagline :: jsval
  d_description :: jsval
  d_bestTime :: jsval
  d_highlights :: jsval
  d_experiences :: jsval

record brochure =
  b_image :: jsval
  b_destination :: jsval
  b_date :: jsval
  b_description :: jsval
  b_pdf :: jsval

text \<open>
  The template literal of a destination card as a function of the texts interpolated
  into it, named after the interpolated expressions; the segments are those of the
  source, character by character. The name is interpolated three times, the region
  and the tagline twice.
\<close>

type_synonym slot = string

definition destinationTemplate ::
  "slot \<Rightarrow> slot \<Rightarrow> slot \<Rightarrow> slot \<Rightarrow> slot \<Rightarrow> slot \<Rightarrow> slot \<Rightarrow> slot \<Rightarrow> slot \<Rightarrow> string" where
  \<open>destinationTemplate image' region name tagline description bestTime highlights experiences thumb =
     ''
                <div class="destination-card group relative aspect-[4/5] rounded-2xl overflow-hidden cursor-pointer fade-in-element visible"
                    data-image="'' @ image' @ ''"
                    data-region="'' @ region @ ''"
                    data-name="'' @ name @ ''"
                    data-tagline="'' @ tagline @ ''"
                    data-description="'' @ description @ ''"
                    data-best-time="'' @ bestTime @ ''"
                    data-highlights="'' @ highlights @ ''"
                    data-experiences="'' @ experiences @ ''">
                    <img src="'' @ thumb @ ''" alt="'' @ name @ ''" loading="lazy" decoding="async"
                        class="w-full h-full object-cover group-hover:scale-110 transition-transform duration-700">
                    <div class="absolute inset-0 bg-gradient-to-t from-dark/80 via-dark/20 to-transparent"></div>
                    <div class="absolute bottom-0 left-0 right-0 p-6">
                        <p class="text-secondary text-sm font-medium mb-2">'' @ region @ ''</p>
                        <h3 class="font-serif text-2xl text-white mb-2">'' @ name @ ''</h3>
                        <p class="text-white/70 text-sm opacity-0 group-hover:opacity-100 transition-opacity duration-300">
                            '' @ tagline @ ''
                        </p>
                    </div>
                    <div class="absolute top-4 right-4 w-10 h-10 bg-white/20 backdrop-blur-sm rounded-full flex items-center justify-center opacity-0 group-hover:opacity-100 transition-all duration-300 group-hover:scale-110">
                        <svg class="w-5 h-5 text-white" fill="none" stroke="currentColor" viewBox="0 0 24 24">
                            <path stroke-linecap="round" stroke-linejoin="round" stroke-width="2" d="M15 12a3 3 0 11-6 0 3 3 0 016 0z"/>
                            <path stroke-linecap="round" stroke-linejoin="round" stroke-width="2" d="M2.458 12C3.732 7.943 7.523 5 12 5c4.478 0 8.268 2.943 9.542 7-1.274 4.057-5.064 7-9.542 7-4.477 0-8.268-2.943-9.542-7z"/>
                        </svg>
                    </div>
                </div>''\<close>

text \<open>The arrow function passed to \<^verbatim>\<open>destinations.map\<close> in \<^verbatim>\<open>loadDestinations\<close>.\<close>

definition destinationCard :: "destination \<Rightarrow> string" where
  "destinationCard d =
     (let image = unsplashUrl (d_image d) ''auto=format&fit=crop&w=1200&q=80'';
          thumb = unsplashUrl (d_image d) ''auto=format&fit=crop&w=600&q=70''
      in destinationTemplate
           (tpl (js_or image (Str [])))
           (tpl (js_or (d_region d) (Str [])))
           (tpl (js_or (d_name d) (Str [])))
           (tpl (js_or (d_tagline d) (Str [])))
           (tpl (js_or (d_description d) (Str [])))
           (tpl (js_or (d_bestTime d) (Str [])))
           (tpl (js_or (d_highlights d) (Str [])))
           (tpl (js_or (d_experiences d) (Str [])))
           (tpl (js_or thumb (Str []))))"

text \<open>The template literal of a brochure card; \<open>date\<close> stands for the conditional
  paragraph, \<open>pdf\<close> for the link target computed before.\<close>

definition brochureTemplate ::
  "slot \<Rightarrow> slot \<Rightarrow> slot \<Rightarrow> slot \<Rightarrow> slot \<Rightarrow> string" where
  \<open>brochureTemplate pdf image' destination date description =
     ''
                <a href="'' @ pdf @ ''" target="_blank" rel="noopener"
                    class="brochure-card group relative bg-neutral rounded-2xl overflow-hidden shadow-lg hover:shadow-2xl transition-all duration-500 fade-in-element visible">
                    <div class="aspect-[4/3] overflow-hidden">
                        <img src="'' @ image' @ ''" alt="'' @ destination @ ''"
                            class="w-full h-full object-cover group-hover:scale-110 transition-transform duration-700"
                            loading="lazy" decoding="async">
                        <div class="absolute inset-0 bg-gradient-to-t from-dark/90 via-dark/50 to-dark/20"></div>
                    </div>
                    <div class="absolute top-4 right-4 w-11 h-11 bg-white rounded-xl flex items-center justify-center shadow-lg group-hover:bg-primary transition-all duration-300">
                        <svg class="w-5 h-5 text-primary group-hover:text-white transition-colors" fill="none" stroke="currentColor" stroke-width="1.5" viewBox="0 0 24 24">
                            <path stroke-linecap="round" stroke-linejoin="round" d="M19.5 14.25v-2.625a3.375 3.375 0 00-3.375-3.375h-1.5A1.125 1.125 0 0113.5 7.125v-1.5a3.375 3.375 0 00-3.375-3.375H8.25m2.25 0H5.625c-.621 0-1.125.504-1.125 1.125v17.25c0 .621.504 1.125 1.125 1.125h12.75c.621 0 1.125-.504 1.125-1.125V11.25a9 9 0 00-9-9z"/>
                        </svg>
                    </div>
                    <div class="absolute bottom-0 left-0 right-0 p-5">
                        '' @ date @ ''
                        <h3 class="font-serif text-2xl text-white mb-2 drop-shadow-lg">'' @ destination @ ''</h3>
                        <p class="text-white/90 text-sm leading-relaxed drop-shadow">'' @ description @ ''</p>
                    </div>
                </a>''\<close>

text \<open>The arrow function passed to \<^verbatim>\<open>brochures.map\<close> in \<^verbatim>\<open>loadBrochures\<close>.\<close>

definition brochureCard :: "brochure \<Rightarrow> string" where
  \<open>brochureCard b =
     (let image = unsplashUrl (b_image b) ''auto=format&fit=crop&w=800&q=70'';
          pdf = (if truthy (b_pdf b) then ''assets/brochures/'' @ tpl (b_pdf b) else ''#'')
      in brochureTemplate pdf
           (tpl (js_or image (Str [])))
           (tpl (js_or (b_destination b) (Str [])))
           (if truthy (b_date b)
            then ''<p class="text-secondary text-sm font-medium mb-1">'' @ tpl (b_date b) @ ''</p>''
            else [])
           (tpl (js_or (b_description b) (Str []))))\<close>

text \<open>
  The text an optional field stands for: its string when it is present, the empty
  string when it is left out or \<^verbatim>\<open>null\<close>. \<open>present_destination\<close> and
  \<open>present_brochure\<close> put that text into every field of a record.
\<close>

definition field_text :: "jsval \<Rightarrow> string" where
  "field_text v = (case v of Str s \<Rightarrow> s | _ \<Rightarrow> [])"

definition present_destination :: "destination \<Rightarrow> destination" where
  "present_destination d =
     \<lparr>d_image = Str (field_text (d_image d)), d_region = Str (field_text (d_region d)),
      d_name = Str (field_text (d_name d)), d_tagline = Str (field_text (d_tagline d)),
      d_description = Str (field_text (d_description d)),
      d_bestTime = Str (field_text (d_bestTime d)),
      d_highlights = Str (field_text (d_highlights d)),
      d_experiences = Str (field_text (d_experiences d))\<rparr>"

definition present_brochure :: "brochure \<Rightarrow> brochure" where
  "present_brochure b =
     \<lparr>b_image = Str (field_text (b_image b)), b_destination = Str (field_text (b_destination b)),
      b_date = Str (field_text (b_date b)), b_description = Str (field_text (b_description b)),
      b_pdf = Str (field_text (b_pdf b))\<rparr>"

text \<open>The records of items that supply no field at all.\<close>

definition absent_destination :: destination where
  "absent_destination =
     \<lparr>d_image = Undefined, d_region = Undefined, d_name = Undefined, d_tagline = Undefined,
      d_description = Undefined, d_bestTime = Undefined, d_highlights = Undefined,
      d_experiences = Undefined\<rparr>"

definition absent_brochure :: brochure where
  "absent_brochure =
     \<lparr>b_image = Undefined, b_destination = Undefined, b_date = Undefined,
      b_description = Undefined, b_pdf = Undefined\<rparr>"

text \<open>
  What \<^verbatim>\<open>response.json()\<close> delivers: a value that is an array or not; an array
  element is \<^verbatim>\<open>null\<close> or a value whose fields can be read (an object; a number or a
  string has none of the fields, like the empty object).
\<close>

datatype 'a json_elem = JNull | JObj 'a

datatype 'a json = NotArray | JArray "'a json_elem list"

text \<open>The outcome of \<^verbatim>\<open>await fetch(url)\<close> followed by \<^verbatim>\<open>await response.json()\<close>:
  the request is rejected, the body does not parse, or a value is delivered.\<close>

datatype 'a fetched = FetchRejected | ParseFailed | Parsed "'a json"

text \<open>\<^verbatim>\<open>xs.map(f)\<close> where \<open>f\<close> reads fields of its argument: reading a field of
  \<^verbatim>\<open>null\<close> throws.\<close>

fun map_cards :: "('a \<Rightarrow> string) \<Rightarrow> 'a json_elem list \<Rightarrow> js_error + string list" where
  "map_cards f [] = Inr []"
| "map_cards f (JNull # es) = Inl TypeError"
| "map_cards f (JObj x # es) =
     (case map_cards f es of Inl e \<Rightarrow> Inl e | Inr cs \<Rightarrow> Inr (f x # cs))"

text \<open>The body of the \<^verbatim>\<open>try\<close> block up to the assignment: the markup, or the
  exception that reaches the \<^verbatim>\<open>catch\<close>.\<close>

fun grid_markup :: "('a \<Rightarrow> string) \<Rightarrow> 'a fetched \<Rightarrow> js_error + string" where
  "grid_markup f FetchRejected = Inl NetworkFailure"
| "grid_markup f ParseFailed = Inl SyntaxError"
| "grid_markup f (Parsed NotArray) = Inl TypeError"
| "grid_markup f (Parsed (JArray es)) =
     (case map_cards f es of Inl e \<Rightarrow> Inl e | Inr cs \<Rightarrow> Inr (concat cs))"

section \<open>The document\<close>

text \<open>
  The page is an array of element nodes in document order; an element is identified
  by its index. A parent precedes its children, so a parent index is smaller than
  the index of the child. The properties are the ones the script reads or writes.
  The markup of a grid container is kept as the string assigned to \<^verbatim>\<open>innerHTML\<close>.
  \<open>isConnected\<close> says whether the element is in the document: an element that has been
  removed stays in the array, since the variables of the script may still hold it.
  \<open>ownText\<close> is the text at the start of the element, before its first child; text further
  on is a child of its own with the tag \<^verbatim>\<open>#text\<close>. \<^verbatim>\<open>offsetTop\<close> and \<^verbatim>\<open>offsetHeight\<close> are
  integers, as the browser reports them.
\<close>

record node =
  tag :: string
  attrs :: "(string \<times> string) list"
  classes :: "string list"
  parent :: "nat option"
  isConnected :: bool
  disabled :: bool
  ownText :: string
  innerHTML :: string
  offsetTop :: int
  offsetHeight :: int

type_synonym dom = "node list"

definition getAttribute :: "node \<Rightarrow> string \<Rightarrow> string option" where
  "getAttribute n k = map_of (attrs n) k"

definition setAttribute :: "string \<Rightarrow> string \<Rightarrow> node \<Rightarrow> node" where
  "setAttribute k v n = n\<lparr>attrs := AList.update k v (attrs n)\<rparr>"

definition classList_contains :: "node \<Rightarrow> string \<Rightarrow> bool" where
  "classList_contains n c = (c \<in> set (classes n))"

definition classList_add :: "string \<Rightarrow> node \<Rightarrow> node" where
  "classList_add c n = (if c \<in> set (classes n) then n else n\<lparr>classes := classes n @ [c]\<rparr>)"

definition classList_remove :: "string \<Rightarrow> node \<Rightarrow> node" where
  "classList_remove c n = n\<lparr>classes := removeAll c (classes n)\<rparr>"

text \<open>A write to a property of element \<open>i\<close>.\<close>

definition upd :: "nat \<Rightarrow> (node \<Rightarrow> node) \<Rightarrow> dom \<Rightarrow> dom" where
  "upd i f d = d[i := f (d ! i)]"

text \<open>\<^verbatim>\<open>querySelectorAll\<close> and \<^verbatim>\<open>querySelector\<close> for a selector given as a
  predicate on element indices: the matches among the elements in the document, in
  document order, and the first match. (A query below an element asks for descendants
  of it in the selector; the script puts such queries to elements of the document.)\<close>

definition querySelectorAll :: "dom \<Rightarrow> (nat \<Rightarrow> bool) \<Rightarrow> nat list" where
  "querySelectorAll d sel = filter (\<lambda>i. isConnected (d ! i) \<and> sel i) [0..<length d]"

definition querySelector :: "dom \<Rightarrow> (nat \<Rightarrow> bool) \<Rightarrow> nat option" where
  "querySelector d sel = List.find (\<lambda>i. isConnected (d ! i) \<and> sel i) [0..<length d]"

definition has_id :: "dom \<Rightarrow> string \<Rightarrow> nat \<Rightarrow> bool" where
  "has_id d x i = (x \<noteq> [] \<and> getAttribute (d ! i) ''id'' = Some x)"

definition has_tag :: "dom \<Rightarrow> string \<Rightarrow> nat \<Rightarrow> bool" where
  "has_tag d t i = (tag (d ! i) = t)"

definition has_class :: "dom \<Rightarrow> string \<Rightarrow> nat \<Rightarrow> bool" where
  "has_class d c i = classList_contains (d ! i) c"

definition getElementById :: "dom \<Rightarrow> string \<Rightarrow> nat option" where
  "getElementById d x = querySelector d (has_id d x)"

text \<open>\<open>is_descendant d a i\<close>: element \<open>i\<close> lies strictly below element \<open>a\<close>.\<close>

function is_descendant :: "dom \<Rightarrow> nat \<Rightarrow> nat \<Rightarrow> bool" where
  "is_descendant d a i =
     (case parent (d ! i) of
        None \<Rightarrow> False
      | Some p \<Rightarrow> if p < i then p = a \<or> is_descendant d a p else False)"
  by pat_completeness auto
termination
  by (relation "measure (\<lambda>(d, a, i). i)") auto

declare is_descendant.simps [simp del]

text \<open>\<^verbatim>\<open>i.closest(sel)\<close>: the element itself or its nearest ancestor that matches.\<close>

function closest :: "dom \<Rightarrow> (nat \<Rightarrow> bool) \<Rightarrow> nat \<Rightarrow> nat option" where
  "closest d sel i =
     (if sel i then Some i
      else (case parent (d ! i) of
              None \<Rightarrow> None
            | Some q \<Rightarrow> if q < i then closest d sel q else None))"
  by pat_completeness auto
termination
  by (relation "measure (\<lambda>(d, sel, i). i)") auto

declare closest.simps [simp del]

text \<open>\<^verbatim>\<open>a.contains(i)\<close>: the element itself or one below it.\<close>

definition contains :: "dom \<Rightarrow> nat \<Rightarrow> nat \<Rightarrow> bool" where
  "contains d a i = (a = i \<or> is_descendant d a i)"

text \<open>
  The getter of \<^verbatim>\<open>textContent\<close>: the text of the element and of everything below it, in
  document order.
\<close>

function textContent :: "dom \<Rightarrow> nat \<Rightarrow> string" where
  "textContent d i =
     ownText (d ! i) @
     concat (map (textContent d) (filter (\<lambda>j. i < j \<and> parent (d ! j) = Some i) [0..<length d]))"
  by pat_completeness auto
termination
  by (relation "measure (\<lambda>(d, i). length d - i)") auto

declare textContent.simps [simp del]

text \<open>
  The setter of \<^verbatim>\<open>textContent\<close> replaces the children of the element by the new text.
  The children leave the tree, and with all that lies below them they leave the document;
  each keeps its own subtree.
\<close>

definition remove_children :: "nat \<Rightarrow> dom \<Rightarrow> dom" where
  "remove_children b d =
     map (\<lambda>j. let n = d ! j in
               if is_descendant d b j
               then n\<lparr>isConnected := False,
                      parent := (if parent n = Some b then None else parent n)\<rparr>
               else n)
         [0..<length d]"

definition set_textContent :: "nat \<Rightarrow> string \<Rightarrow> dom \<Rightarrow> dom" where
  "set_textContent b s d = upd b (\<lambda>n. n\<lparr>ownText := s\<rparr>) (remove_children b d)"

text \<open>The part of an element that only the setter of \<^verbatim>\<open>textContent\<close> may change, and
  that for the elements below its target: the tag, the place in the tree, whether the
  element is in the document, and the layout. (Attributes are written, but never the
  id or the href.)\<close>

definition frame :: "node \<Rightarrow> string \<times> nat option \<times> bool \<times> int \<times> int" where
  "frame n = (tag n, parent n, isConnected n, offsetTop n, offsetHeight n)"

section \<open>The page state\<close>

datatype log_entry = LogError string js_error | LogInfo string

text \<open>The two closures made by \<^verbatim>\<open>throttle\<close>, each with its own \<^verbatim>\<open>inThrottle\<close>.\<close>

datatype throttle_id = ScrollHandler | ResizeHandler

text \<open>
  The callbacks passed to \<^verbatim>\<open>setTimeout\<close>: the re-hide of \<^verbatim>\<open>closeMobileMenu\<close>, the reset of
  a throttle, and the reset of the submit button in \<^verbatim>\<open>initFormValidation\<close> with the
  button and the text it captured.
\<close>

datatype timer = HideMenu | ThrottleReset throttle_id | RestoreButton nat string

text \<open>The variables the submit listener of \<^verbatim>\<open>initContactForm\<close> closes over; a lookup
  that found nothing is \<open>None\<close>.\<close>

record contact_form =
  form :: nat
  submitBtn :: nat
  btnText :: "nat option"
  btnSpinner :: "nat option"
  formSuccess :: "nat option"

text \<open>The listeners the script registers, each with the element it is attached to
  or the variables it closes over.\<close>

datatype listener =
    OnScroll | OnToggleClick nat | OnDocumentClick | OnAnchorClick nat | OnMenuLinkClick nat
  | OnResize | OnKeydownMenu
  | OnValidationSubmit nat | OnBlur nat | OnInput nat
  | OnContactSubmit contact_form
  | OnParallaxScroll nat
  | OnCardClick nat | OnCardKeydown nat | OnModalClose nat | OnBackdropClick nat
  | OnKeydownModal nat | OnCtaClick nat | OnContentClick nat

text \<open>
  The state of the page: the document, the scroll offset and width of the window,
  whether \<^verbatim>\<open>IntersectionObserver\<close> exists, the console and the alerts shown, the
  registered listeners, the pending timeouts with the time they are due (in ms, in
  the order they were set), the clock, the \<^verbatim>\<open>inThrottle\<close> flags, the targets passed
  to \<^verbatim>\<open>window.scrollTo\<close>, the elements under observation, and the
  \<^verbatim>\<open>defaultPrevented\<close> flag of the event being dispatched.
\<close>

record page =
  dom :: dom
  scrollY :: real
  innerWidth :: real
  hasIntersectionObserver :: bool
  console :: "log_entry list"
  alerts :: "string list"
  listeners :: "listener list"
  timers :: "(nat \<times> timer) list"
  clock :: nat
  inThrottle :: "throttle_id \<Rightarrow> bool"
  scrollTo :: "int list"
  observed :: "nat list"
  defaultPrevented :: bool

text \<open>
  A function of the script ends normally with the new state, or throws; the state
  it had reached when it threw stays as it is.
\<close>

datatype outcome = Done page | Threw js_error page

fun state_of :: "outcome \<Rightarrow> page" where
  "state_of (Done p) = p"
| "state_of (Threw e p) = p"

fun is_done :: "outcome \<Rightarrow> bool" where
  "is_done (Done p) = True"
| "is_done (Threw e p) = False"

text \<open>Statements in sequence: the first that throws ends the sequence.\<close>

fun seq :: "(page \<Rightarrow> outcome) list \<Rightarrow> page \<Rightarrow> outcome" where
  "seq [] p = Done p"
| "seq (s # ss) p = (case s p of Done p' \<Rightarrow> seq ss p' | Threw e p' \<Rightarrow> Threw e p')"

text \<open>A write to a property of an element reference; the reference \<^verbatim>\<open>null\<close> throws.\<close>

definition write_el :: "nat option \<Rightarrow> (node \<Rightarrow> node) \<Rightarrow> page \<Rightarrow> outcome" where
  "write_el r f p =
     (case r of None \<Rightarrow> Threw TypeError p | Some i \<Rightarrow> Done (p\<lparr>dom := upd i f (dom p)\<rparr>))"

definition setTimeout :: "timer \<Rightarrow> nat \<Rightarrow> page \<Rightarrow> outcome" where
  "setTimeout cb delay p = Done (p\<lparr>timers := timers p @ [(clock p + delay, cb)]\<rparr>)"

definition addEventListener :: "listener \<Rightarrow> page \<Rightarrow> outcome" where
  "addEventListener l p = Done (p\<lparr>listeners := listeners p @ [l]\<rparr>)"

section \<open>Card grid loaders\<close>

text \<open>
  \<^verbatim>\<open>loadDestinations\<close> and \<^verbatim>\<open>loadBrochures\<close>, given the outcome of the fetch. The
  container is looked up first; without it nothing is fetched. The assignment to
  \<^verbatim>\<open>innerHTML\<close> is the last statement of the \<^verbatim>\<open>try\<close> block, the \<^verbatim>\<open>catch\<close> block logs.
\<close>

definition loadDestinations :: "destination fetched \<Rightarrow> page \<Rightarrow> page" where
  "loadDestinations outcome p =
     (case getElementById (dom p) ''destinations-grid'' of
        None \<Rightarrow> p
      | Some grid \<Rightarrow>
          (case grid_markup destinationCard outcome of
             Inr html \<Rightarrow> p\<lparr>dom := upd grid (\<lambda>n. n\<lparr>innerHTML := html\<rparr>) (dom p)\<rparr>
           | Inl error \<Rightarrow>
               p\<lparr>console := console p @ [LogError ''Error loading destinations:'' error]\<rparr>))"

definition loadBrochures :: "brochure fetched \<Rightarrow> page \<Rightarrow> page" where
  "loadBrochures outcome p =
     (case getElementById (dom p) ''brochures-grid'' of
        None \<Rightarrow> p
      | Some grid \<Rightarrow>
          (case grid_markup brochureCard outcome of
             Inr html \<Rightarrow> p\<lparr>dom := upd grid (\<lambda>n. n\<lparr>innerHTML := html\<rparr>) (dom p)\<rparr>
           | Inl error \<Rightarrow>
               p\<lparr>console := console p @ [LogError ''Error loading brochures:'' error]\<rparr>))"

text \<open>Which outcomes make the \<^verbatim>\<open>try\<close> block throw: a rejected request, a body that
  does not parse, a value that is no array, an array with a \<^verbatim>\<open>null\<close> element.\<close>

fun load_fails :: "'a fetched \<Rightarrow> bool" where
  "load_fails FetchRejected = True"
| "load_fails ParseFailed = True"
| "load_fails (Parsed NotArray) = True"
| "load_fails (Parsed (JArray es)) = (JNull \<in> set es)"

section \<open>The script\<close>

subsection \<open>DOM elements\<close>

text \<open>
  The constants of the top of the script. \<^verbatim>\<open>mobileMenu.querySelectorAll('a')\<close> reads
  a property of \<^verbatim>\<open>mobileMenu\<close>, so a page without the element \<^verbatim>\<open>mobile-menu\<close> makes
  the script throw there; the other lookups may yield \<^verbatim>\<open>null\<close>.
\<close>

record env =
  navbar :: "nat option"
  menuToggle :: "nat option"
  mobileMenu :: nat
  mobileMenuLinks :: "nat list"
  fadeElements :: "nat list"

definition script_start :: "dom \<Rightarrow> js_error + env" where
  "script_start d =
     (case getElementById d ''mobile-menu'' of
        None \<Rightarrow> Inl TypeError
      | Some m \<Rightarrow>
          Inr \<lparr>navbar = getElementById d ''navbar'',
               menuToggle = getElementById d ''menu-toggle'',
               mobileMenu = m,
               mobileMenuLinks = querySelectorAll d (\<lambda>i. is_descendant d m i \<and> has_tag d ''a'' i),
               fadeElements = querySelectorAll d (has_class d ''fade-in-element'')\<rparr>)"

subsection \<open>Navigation: scroll effect\<close>

definition handleNavbarScroll :: "env \<Rightarrow> page \<Rightarrow> outcome" where
  "handleNavbarScroll e p =
     (let scrollThreshold = 100 in
      if scrollY p > scrollThreshold
      then write_el (navbar e) (classList_add ''scrolled'') p
      else write_el (navbar e) (classList_remove ''scrolled'') p)"

subsection \<open>Mobile menu toggle\<close>

definition updateMenuIcon :: "bool \<Rightarrow> page \<Rightarrow> outcome" where
  "updateMenuIcon isOpen p =
     (let menuIcon = getElementById (dom p) ''menu-icon'' in
      if isOpen then write_el menuIcon (setAttribute ''d'' ''M6 18L18 6M6 6l12 12'') p
      else write_el menuIcon (setAttribute ''d'' ''M4 6h16M4 12h16M4 18h16'') p)"

definition openMobileMenu :: "env \<Rightarrow> page \<Rightarrow> outcome" where
  "openMobileMenu e =
     seq [write_el (Some (mobileMenu e)) (classList_remove ''hidden''),
          write_el (Some (mobileMenu e)) (classList_add ''open''),
          write_el (menuToggle e) (classList_add ''active''),
          write_el (menuToggle e) (setAttribute ''aria-expanded'' ''true''),
          updateMenuIcon True]"

definition closeMobileMenu :: "env \<Rightarrow> page \<Rightarrow> outcome" where
  "closeMobileMenu e =
     seq [write_el (Some (mobileMenu e)) (classList_remove ''open''),
          write_el (menuToggle e) (classList_remove ''active''),
          write_el (menuToggle e) (setAttribute ''aria-expanded'' ''false''),
          updateMenuIcon False,
          setTimeout HideMenu 300]"

definition toggleMobileMenu :: "env \<Rightarrow> page \<Rightarrow> outcome" where
  "toggleMobileMenu e p =
     (let isOpen = classList_contains (dom p ! mobileMenu e) ''open'' in
      if isOpen then closeMobileMenu e p else openMobileMenu e p)"

subsection \<open>Timeouts\<close>

text \<open>The callbacks, as the script wrote them.\<close>

fun run_timer :: "env \<Rightarrow> timer \<Rightarrow> page \<Rightarrow> outcome" where
  "run_timer e HideMenu p =
     (if \<not> classList_contains (dom p ! mobileMenu e) ''open''
      then write_el (Some (mobileMenu e)) (classList_add ''hidden'') p
      else Done p)"
| "run_timer e (ThrottleReset k) p = Done (p\<lparr>inThrottle := (inThrottle p)(k := False)\<rparr>)"
| "run_timer e (RestoreButton submitButton originalText) p =
     seq [(\<lambda>q. Done (q\<lparr>dom := set_textContent submitButton originalText (dom q)\<rparr>)),
          write_el (Some submitButton) (\<lambda>n. n\<lparr>disabled := False\<rparr>)] p"

text \<open>
  \<open>advance e dt p\<close>: the time \<open>dt\<close> passes without any other event. The timeouts due
  by then run in the order of their due times (those set first go first among equals);
  an exception in a callback is reported and the next callback still runs. No callback
  of this script sets a timeout, so the timeouts that are due are those pending at
  the start.
\<close>

definition advance :: "env \<Rightarrow> nat \<Rightarrow> page \<Rightarrow> page" where
  "advance e dt p =
     (let t = clock p + dt;
          due = sort_key fst (filter (\<lambda>x. fst x \<le> t) (timers p));
          rest = filter (\<lambda>x. \<not> fst x \<le> t) (timers p);
          q = foldl (\<lambda>q x. state_of (run_timer e (snd x) (q\<lparr>clock := fst x\<rparr>)))
                (p\<lparr>timers := rest\<rparr>) due
      in q\<lparr>clock := t\<rparr>)"

subsection \<open>Smooth scroll\<close>

text \<open>\<open>this\<close> is the link that was clicked; \<^verbatim>\<open>e.preventDefault()\<close> sets the flag of
  the event.\<close>

definition handleSmoothScroll :: "env \<Rightarrow> nat \<Rightarrow> page \<Rightarrow> outcome" where
  "handleSmoothScroll e this p =
     (case getAttribute (dom p ! this) ''href'' of
        None \<Rightarrow> Threw TypeError p
      | Some href \<Rightarrow>
          if startsWith href ''#'' then
            (let p1 = p\<lparr>defaultPrevented := True\<rparr>;
                 targetId = substring href 1
             in case getElementById (dom p1) targetId of
                  None \<Rightarrow> Done p1
                | Some targetElement \<Rightarrow>
                    (case navbar e of
                       None \<Rightarrow> Threw TypeError p1
                     | Some nb \<Rightarrow>
                         (let navbarHeight = offsetHeight (dom p1 ! nb);
                              targetPosition = offsetTop (dom p1 ! targetElement) - navbarHeight;
                              p2 = p1\<lparr>scrollTo := scrollTo p1 @ [targetPosition]\<rparr>
                          in if classList_contains (dom p2 ! mobileMenu e) ''open''
                             then closeMobileMenu e p2 else Done p2)))
          else Done p)"

subsection \<open>Scroll animations\<close>

definition initScrollAnimations :: "env \<Rightarrow> page \<Rightarrow> outcome" where
  "initScrollAnimations e p =
     (if \<not> hasIntersectionObserver p
      then Done (p\<lparr>dom := foldl (\<lambda>d el. upd el (classList_add ''visible'') d) (dom p) (fadeElements e)\<rparr>)
      else Done (p\<lparr>observed := observed p @ fadeElements e\<rparr>))"

subsection \<open>Active navigation link\<close>

text \<open>The selectors \<^verbatim>\<open>section[id]\<close> and \<^verbatim>\<open>#navbar a[href^="#"]\<close>.\<close>

definition section_with_id :: "dom \<Rightarrow> nat \<Rightarrow> bool" where
  "section_with_id d i = (has_tag d ''section'' i \<and> getAttribute (d ! i) ''id'' \<noteq> None)"

definition anchor_link :: "dom \<Rightarrow> nat \<Rightarrow> bool" where
  "anchor_link d i =
     (has_tag d ''a'' i \<and>
      (case getAttribute (d ! i) ''href'' of None \<Rightarrow> False | Some h \<Rightarrow> startsWith h ''#''))"

definition navbar_link :: "dom \<Rightarrow> nat \<Rightarrow> bool" where
  "navbar_link d i =
     (anchor_link d i \<and> (\<exists>a \<in> set [0..<length d]. has_id d ''navbar'' a \<and> is_descendant d a i))"

text \<open>The body of the loop over the sections, and of the loop over the links.\<close>

definition section_step :: "dom \<Rightarrow> real \<Rightarrow> string \<Rightarrow> nat \<Rightarrow> string" where
  "section_step d scrollPosition currentSection s =
     (let sectionTop = offsetTop (d ! s); sectionHeight = offsetHeight (d ! s) in
      if scrollPosition \<ge> of_int sectionTop \<and> scrollPosition < of_int (sectionTop + sectionHeight)
      then (case getAttribute (d ! s) ''id'' of None \<Rightarrow> ''null'' | Some x \<Rightarrow> x)
      else currentSection)"

text \<open>The loop over the sections as a whole: the id of the last section, in document
  order, whose span holds the position; the empty string when there is none.\<close>

definition in_span :: "dom \<Rightarrow> real \<Rightarrow> nat \<Rightarrow> bool" where
  "in_span d pos s =
     (pos \<ge> of_int (offsetTop (d ! s)) \<and> pos < of_int (offsetTop (d ! s) + offsetHeight (d ! s)))"

definition current_section :: "dom \<Rightarrow> real \<Rightarrow> string" where
  "current_section d pos = foldl (section_step d pos) [] (querySelectorAll d (section_with_id d))"

definition link_step :: "string \<Rightarrow> node \<Rightarrow> node" where
  "link_step currentSection n =
     (let n' = classList_remove ''text-secondary'' n in
      if getAttribute n' ''href'' = Some (''#'' @ currentSection)
      then classList_add ''text-secondary'' n' else n')"

definition updateActiveNavLink :: "env \<Rightarrow> page \<Rightarrow> outcome" where
  "updateActiveNavLink e p =
     (let d = dom p;
          sections = querySelectorAll d (section_with_id d);
          navLinks = querySelectorAll d (navbar_link d)
      in case navbar e of
           None \<Rightarrow> Threw TypeError p
         | Some nb \<Rightarrow>
             (let scrollPosition = js_add (js_add (scrollY p) (of_int (offsetHeight (d ! nb)))) 100;
                  currentSection = foldl (section_step d scrollPosition) [] sections
              in Done (p\<lparr>dom := foldl (\<lambda>d' l. upd l (link_step currentSection) d') d navLinks\<rparr>)))"

subsection \<open>Form validation enhancement\<close>

text \<open>The selectors \<^verbatim>\<open>input, textarea\<close> and \<^verbatim>\<open>button[type="submit"]\<close> below a form.\<close>

definition field_of :: "dom \<Rightarrow> nat \<Rightarrow> nat \<Rightarrow> bool" where
  "field_of d f i = (is_descendant d f i \<and> (has_tag d ''input'' i \<or> has_tag d ''textarea'' i))"

definition submit_button_of :: "dom \<Rightarrow> nat \<Rightarrow> nat \<Rightarrow> bool" where
  "submit_button_of d f i =
     (is_descendant d f i \<and> has_tag d ''button'' i \<and> getAttribute (d ! i) ''type'' = Some ''submit'')"

text \<open>The submit listener of \<^verbatim>\<open>initFormValidation\<close>.\<close>

definition validationSubmit :: "nat \<Rightarrow> page \<Rightarrow> outcome" where
  "validationSubmit f p =
     (case querySelector (dom p) (submit_button_of (dom p) f) of
        None \<Rightarrow> Threw TypeError p
      | Some submitButton \<Rightarrow>
          (let originalText = textContent (dom p) submitButton in
           seq [(\<lambda>q. Done (q\<lparr>dom := set_textContent submitButton ''Invio in corso...'' (dom q)\<rparr>)),
                write_el (Some submitButton) (\<lambda>n. n\<lparr>disabled := True\<rparr>),
                setTimeout (RestoreButton submitButton originalText) 5000] p))"

text \<open>The blur and input listeners of a field; \<open>valid\<close> is \<^verbatim>\<open>this.validity.valid\<close> and
  \<open>hasValue\<close> says whether \<^verbatim>\<open>this.value\<close> is non-empty, both as the browser reports them.\<close>

definition fieldBlur :: "nat \<Rightarrow> bool \<Rightarrow> bool \<Rightarrow> page \<Rightarrow> outcome" where
  "fieldBlur this valid hasValue p =
     (if valid then
        seq [write_el (Some this) (classList_remove ''border-red-500''),
             write_el (Some this) (classList_add ''border-green-500/50'')] p
      else if hasValue then
        seq [write_el (Some this) (classList_add ''border-red-500''),
             write_el (Some this) (classList_remove ''border-green-500/50'')] p
      else Done p)"

definition fieldInput :: "nat \<Rightarrow> bool \<Rightarrow> page \<Rightarrow> outcome" where
  "fieldInput this valid p =
     (if valid then write_el (Some this) (classList_remove ''border-red-500'') p else Done p)"

definition initFormValidation :: "page \<Rightarrow> outcome" where
  "initFormValidation p =
     (case querySelector (dom p) (has_tag (dom p) ''form'') of
        None \<Rightarrow> Done p
      | Some f \<Rightarrow>
          seq (addEventListener (OnValidationSubmit f) #
               concat (map (\<lambda>i. [addEventListener (OnBlur i), addEventListener (OnInput i)])
                         (querySelectorAll (dom p) (field_of (dom p) f)))) p)"

subsection \<open>Parallax effect\<close>

definition hero_image :: "dom \<Rightarrow> nat \<Rightarrow> bool" where
  "hero_image d i =
     (has_tag d ''img'' i \<and> (\<exists>a \<in> set [0..<length d]. has_id d ''hero'' a \<and> is_descendant d a i))"

definition initParallax :: "page \<Rightarrow> outcome" where
  "initParallax p =
     (case querySelector (dom p) (hero_image (dom p)) of
        None \<Rightarrow> Done p
      | Some heroImage \<Rightarrow>
          if innerWidth p < 768 then Done p
          else addEventListener (OnParallaxScroll heroImage) p)"

subsection \<open>Throttle\<close>

text \<open>The closure returned by \<^verbatim>\<open>throttle(func, limit)\<close>.\<close>

definition throttle :: "throttle_id \<Rightarrow> (page \<Rightarrow> outcome) \<Rightarrow> nat \<Rightarrow> page \<Rightarrow> outcome" where
  "throttle k func limit p =
     (if \<not> inThrottle p k then
        seq [func,
             (\<lambda>q. Done (q\<lparr>inThrottle := (inThrottle q)(k := True)\<rparr>)),
             setTimeout (ThrottleReset k) limit] p
      else Done p)"

subsection \<open>Event listeners\<close>

definition throttledScrollHandler :: "env \<Rightarrow> page \<Rightarrow> outcome" where
  "throttledScrollHandler e =
     throttle ScrollHandler (seq [handleNavbarScroll e, updateActiveNavLink e]) 100"

definition resizeHandler :: "env \<Rightarrow> page \<Rightarrow> outcome" where
  "resizeHandler e =
     throttle ResizeHandler
       (\<lambda>p. if innerWidth p \<ge> 768 \<and> classList_contains (dom p ! mobileMenu e) ''open''
            then closeMobileMenu e p else Done p) 200"

definition attach :: "nat option \<Rightarrow> (nat \<Rightarrow> listener) \<Rightarrow> page \<Rightarrow> outcome" where
  "attach r l p = (case r of None \<Rightarrow> Threw TypeError p | Some i \<Rightarrow> addEventListener (l i) p)"

definition initEventListeners :: "env \<Rightarrow> page \<Rightarrow> outcome" where
  "initEventListeners e p =
     seq ([addEventListener OnScroll,
           attach (menuToggle e) OnToggleClick,
           addEventListener OnDocumentClick]
          @ map (\<lambda>l. addEventListener (OnAnchorClick l)) (querySelectorAll (dom p) (anchor_link (dom p)))
          @ map (\<lambda>l. addEventListener (OnMenuLinkClick l)) (mobileMenuLinks e)
          @ [addEventListener OnResize, addEventListener OnKeydownMenu]) p"

text \<open>
  A scroll event of the window at the offset \<open>y\<close>: the throttled handler runs if
  it is registered. (The parallax listener writes the inline style of the hero image
  only, which the model does not hold.)
\<close>

definition window_scroll :: "env \<Rightarrow> real \<Rightarrow> page \<Rightarrow> outcome" where
  "window_scroll e y p =
     (let p1 = p\<lparr>scrollY := y\<rparr> in
      if OnScroll \<in> set (listeners p1) then throttledScrollHandler e p1 else Done p1)"

subsection \<open>FAQ accordion toggle\<close>

definition faq_content_of :: "dom \<Rightarrow> nat \<Rightarrow> nat option" where
  "faq_content_of d item = querySelector d (\<lambda>i. is_descendant d item i \<and> has_class d ''faq-content'' i)"

definition close_other :: "nat \<Rightarrow> nat \<Rightarrow> page \<Rightarrow> outcome" where
  "close_other faqItem item p =
     (if item \<noteq> faqItem then
        seq [write_el (Some item) (classList_remove ''open''),
             (\<lambda>q. write_el (faq_content_of (dom q) item) (classList_add ''hidden'') q)] p
      else Done p)"

definition toggleFaq :: "nat \<Rightarrow> page \<Rightarrow> outcome" where
  "toggleFaq button p =
     (let d = dom p in
      case closest d (has_class d ''faq-item'') button of
        None \<Rightarrow> Threw TypeError p
      | Some faqItem \<Rightarrow>
          (let content = faq_content_of d faqItem;
               isOpen = classList_contains (d ! faqItem) ''open'';
               openItems = querySelectorAll d (\<lambda>i. has_class d ''faq-item'' i \<and> has_class d ''open'' i)
           in seq (map (close_other faqItem) openItems
                   @ (if isOpen
                      then [write_el (Some faqItem) (classList_remove ''open''),
                            write_el content (classList_add ''hidden'')]
                      else [write_el (Some faqItem) (classList_add ''open''),
                            write_el content (classList_remove ''hidden'')])) p))"

text \<open>
  How the document can differ after steps of \<^verbatim>\<open>toggleFaq\<close> that remove \<^verbatim>\<open>open\<close> and add
  \<^verbatim>\<open>hidden\<close>: the tree, the layout and every other class are the same, no element has
  gained \<^verbatim>\<open>open\<close> and none has lost \<^verbatim>\<open>hidden\<close>.
\<close>

definition faq_later :: "dom \<Rightarrow> dom \<Rightarrow> bool" where
  "faq_later d d' =
     (map frame d' = map frame d \<and>
      (\<forall>i c. (c \<noteq> ''open'' \<and> c \<noteq> ''hidden'' \<longrightarrow> has_class d' c i = has_class d c i)
           \<and> (has_class d' ''open'' i \<longrightarrow> has_class d ''open'' i)
           \<and> (has_class d ''hidden'' i \<longrightarrow> has_class d' ''hidden'' i)))"

subsection \<open>Contact form\<close>

definition initContactForm :: "page \<Rightarrow> outcome" where
  "initContactForm p =
     (let d = dom p in
      case getElementById d ''contact-form'' of
        None \<Rightarrow> Done p
      | Some f \<Rightarrow>
          (case getElementById d ''submit-btn'' of
             None \<Rightarrow> Threw TypeError p
           | Some b \<Rightarrow>
               addEventListener
                 (OnContactSubmit
                    \<lparr>form = f, submitBtn = b,
                     btnText = querySelector d (\<lambda>i. is_descendant d b i \<and> has_class d ''btn-text'' i),
                     btnSpinner = querySelector d (\<lambda>i. is_descendant d b i \<and> has_class d ''btn-spinner'' i),
                     formSuccess = getElementById d ''form-success''\<rparr>) p))"

text \<open>The outcome of the POST: the request is rejected, or a response arrives with
  its \<^verbatim>\<open>ok\<close> flag.\<close>

datatype post_result = PostRejected | PostResponse bool

definition alert_text :: string where
  "alert_text = ''Ops! Qualcosa '' @ [CHR 0xC3, CHR 0xA8]
     @ '' andato storto. Scrivimi a sophie.just4tour@gmail.com''"

text \<open>The submit listener up to the \<^verbatim>\<open>await\<close>.\<close>

definition contactSubmit_begin :: "contact_form \<Rightarrow> page \<Rightarrow> outcome" where
  "contactSubmit_begin c =
     seq [(\<lambda>q. Done (q\<lparr>defaultPrevented := True\<rparr>)),
          write_el (Some (submitBtn c)) (\<lambda>n. n\<lparr>disabled := True\<rparr>),
          write_el (btnText c) (classList_add ''hidden''),
          write_el (btnSpinner c) (classList_remove ''hidden'')]"

text \<open>The rest of the \<^verbatim>\<open>try\<close> block once the request has settled, and the
  \<^verbatim>\<open>catch\<close> block.\<close>

definition freeze_field :: "node \<Rightarrow> node" where
  "freeze_field n =
     classList_add ''cursor-not-allowed'' (classList_add ''opacity-60'' (n\<lparr>disabled := True\<rparr>))"

definition contact_try :: "contact_form \<Rightarrow> post_result \<Rightarrow> page \<Rightarrow> outcome" where
  "contact_try c r p =
     (case r of
        PostRejected \<Rightarrow> Threw NetworkFailure p
      | PostResponse ok \<Rightarrow>
          if ok then
            seq [write_el (Some (submitBtn c)) (classList_add ''hidden''),
                 write_el (formSuccess c) (classList_remove ''hidden''),
                 (\<lambda>q. Done (q\<lparr>dom := foldl (\<lambda>d i. upd i freeze_field d) (dom q)
                                       (querySelectorAll (dom q) (field_of (dom q) (form c)))\<rparr>))] p
          else Threw (Error ''Errore di invio'') p)"

definition contact_catch :: "contact_form \<Rightarrow> page \<Rightarrow> outcome" where
  "contact_catch c =
     seq [write_el (btnSpinner c) (classList_add ''hidden''),
          write_el (btnText c) (classList_remove ''hidden''),
          write_el (Some (submitBtn c)) (\<lambda>n. n\<lparr>disabled := False\<rparr>),
          (\<lambda>q. Done (q\<lparr>alerts := alerts q @ [alert_text]\<rparr>))]"

definition contactSubmit_resume :: "contact_form \<Rightarrow> post_result \<Rightarrow> page \<Rightarrow> outcome" where
  "contactSubmit_resume c r p =
     (case contact_try c r p of Done q \<Rightarrow> Done q | Threw error q \<Rightarrow> contact_catch c q)"

text \<open>
  The events that reach the form after it has been wired: a submit event on a form
  (the listener of \<^verbatim>\<open>initFormValidation\<close> on the form \<open>vf\<close> runs first, then the one
  of \<^verbatim>\<open>initContactForm\<close>; an exception in a listener is reported and the next one still
  runs), the settling of a POST, blur and input on a field, and the passing of time
  with the timeouts that fall due.
\<close>

datatype form_event =
  SubmitEvent nat | PostSettled post_result | BlurEvent nat bool bool | InputEvent nat bool
  | TimePasses nat

definition form_step :: "env \<Rightarrow> contact_form \<Rightarrow> nat \<Rightarrow> page \<Rightarrow> form_event \<Rightarrow> page" where
  "form_step e c vf p ev =
     (case ev of
        SubmitEvent f \<Rightarrow>
          (let p1 = (if f = vf then state_of (validationSubmit vf p) else p)
           in if f = form c then state_of (contactSubmit_begin c p1) else p1)
      | PostSettled r \<Rightarrow> state_of (contactSubmit_resume c r p)
      | BlurEvent i valid hasValue \<Rightarrow> state_of (fieldBlur i valid hasValue p)
      | InputEvent i valid \<Rightarrow> state_of (fieldInput i valid p)
      | TimePasses dt \<Rightarrow> advance e dt p)"

definition form_events :: "env \<Rightarrow> contact_form \<Rightarrow> nat \<Rightarrow> form_event list \<Rightarrow> page \<Rightarrow> page" where
  "form_events e c vf evs p = foldl (form_step e c vf) p evs"

text \<open>
  The form after a successful submission: the submit control is hidden, the
  confirmation \<open>fs\<close> is shown, every input and textarea of the form is disabled.
\<close>

definition frozen :: "contact_form \<Rightarrow> nat \<Rightarrow> dom \<Rightarrow> bool" where
  "frozen c fs d =
     (has_class d ''hidden'' (submitBtn c) \<and> \<not> has_class d ''hidden'' fs \<and>
      list_all (\<lambda>i. disabled (d ! i)) (querySelectorAll d (field_of d (form c))))"

text \<open>Every pending reset of a submit button is for a \<^verbatim>\<open>button\<close> element, as
  \<^verbatim>\<open>initFormValidation\<close> selects it.\<close>

fun timer_ok :: "dom \<Rightarrow> timer \<Rightarrow> bool" where
  "timer_ok d (RestoreButton b txt) = has_tag d ''button'' b"
| "timer_ok d HideMenu = True"
| "timer_ok d (ThrottleReset k) = True"

definition button_timers :: "page \<Rightarrow> bool" where
  "button_timers p = list_all (\<lambda>x. timer_ok (dom p) (snd x)) (timers p)"

text \<open>
  The elements the submit listener works on are different elements: the confirmation
  is neither the button nor its text nor its spinner (nor the menu panel), and the text
  and the spinner lie below the button.
\<close>

definition form_wired :: "env \<Rightarrow> contact_form \<Rightarrow> nat \<Rightarrow> bool" where
  "form_wired e c fs =
     (formSuccess c = Some fs \<and> fs \<noteq> submitBtn c \<and> btnText c \<noteq> Some fs \<and> btnSpinner c \<noteq> Some fs
      \<and> btnText c \<noteq> Some (submitBtn c) \<and> btnSpinner c \<noteq> Some (submitBtn c) \<and> mobileMenu e \<noteq> fs)"

definition form_inv :: "contact_form \<Rightarrow> nat \<Rightarrow> page \<Rightarrow> bool" where
  "form_inv c fs p =
     (frozen c fs (dom p) \<and> button_timers p \<and> has_tag (dom p) ''button'' (submitBtn c))"

subsection \<open>Destination modal\<close>

text \<open>
  The wiring of the modal. The card elements are made by the browser from the markup
  of the grid and are not nodes of the model: \<open>cards\<close> is the number of elements
  that \<^verbatim>\<open>document.querySelectorAll('.destination-card')\<close> finds, and the attributes set
  on them are left out.
\<close>

definition initDestinationModal :: "nat \<Rightarrow> page \<Rightarrow> outcome" where
  "initDestinationModal cards p =
     (let d = dom p;
          modal = getElementById d ''destination-modal'';
          modalClose = getElementById d ''modal-close'';
          modalBackdrop =
            (case modal of None \<Rightarrow> None
             | Some m \<Rightarrow> querySelector d (\<lambda>i. is_descendant d m i \<and> has_class d ''modal-backdrop'' i));
          modalCtaBtn = getElementById d ''modal-cta-btn''
      in case modal of
           None \<Rightarrow> Done p
         | Some m \<Rightarrow>
             if cards = 0 then Done p
             else
               seq (concat (map (\<lambda>k. [addEventListener (OnCardClick k), addEventListener (OnCardKeydown k)])
                              [0..<cards])
                    @ [attach modalClose OnModalClose,
                       attach modalBackdrop OnBackdropClick,
                       addEventListener (OnKeydownModal m),
                       attach modalCtaBtn OnCtaClick,
                       attach (querySelector d (\<lambda>i. is_descendant d m i \<and> has_class d ''modal-content'' i))
                         OnContentClick]) p)"

subsection \<open>Initialize\<close>

definition console_log :: "string \<Rightarrow> page \<Rightarrow> outcome" where
  "console_log s p = Done (p\<lparr>console := console p @ [LogInfo s]\<rparr>)"

definition init :: "env \<Rightarrow> page \<Rightarrow> outcome" where
  "init e =
     seq [handleNavbarScroll e,
          initScrollAnimations e,
          initEventListeners e,
          initFormValidation,
          initContactForm,
          initParallax,
          console_log (''%c'' @ [CHR 0xE2, CHR 0x9C, CHR 0x88, CHR 0xEF, CHR 0xB8, CHR 0x8F]
                       @ '' Sophie Travel Designer''),
          console_log ''%cViaggi su misura, pensati per te'']"

text \<open>\<^verbatim>\<open>bootstrap\<close>, given the outcomes of the two fetches and the number of cards in
  the document after the first.\<close>

definition bootstrap ::
  "env \<Rightarrow> destination fetched \<Rightarrow> nat \<Rightarrow> brochure fetched \<Rightarrow> page \<Rightarrow> outcome" where
  "bootstrap e od cards ob =
     seq [init e,
          (\<lambda>p. Done (loadDestinations od p)),
          initDestinationModal cards,
          (\<lambda>p. Done (loadBrochures ob p))]"

text \<open>The whole script on a page that has been parsed.\<close>

definition run_script ::
  "destination fetched \<Rightarrow> nat \<Rightarrow> brochure fetched \<Rightarrow> page \<Rightarrow> outcome" where
  "run_script od cards ob p =
     (case script_start (dom p) of
        Inl error \<Rightarrow> Threw error p
      | Inr e \<Rightarrow> bootstrap e od cards ob p)"

text \<open>An element that has changed at most in its text, its markup, its \<^verbatim>\<open>disabled\<close>
  flag and the classes \<^verbatim>\<open>scrolled\<close> and \<^verbatim>\<open>visible\<close>; initialisation writes no more.\<close>

definition same_element :: "node \<Rightarrow> node \<Rightarrow> bool" where
  "same_element n n' =
     (frame n' = frame n \<and> attrs n' = attrs n \<and>
      set (classes n') - {''scrolled'', ''visible''} = set (classes n) - {''scrolled'', ''visible''})"

text \<open>
  The elements that the script uses without a check: \<^verbatim>\<open>mobileMenu\<close> at the top of the
  script, \<^verbatim>\<open>navbar\<close> in \<^verbatim>\<open>handleNavbarScroll\<close>, \<^verbatim>\<open>menuToggle\<close> in \<^verbatim>\<open>initEventListeners\<close>,
  \<^verbatim>\<open>submitBtn\<close> in \<^verbatim>\<open>initContactForm\<close> once the form exists, and the four controls of the
  modal in \<^verbatim>\<open>initDestinationModal\<close> once the modal exists and there is a card.
\<close>

definition dom_contract :: "nat \<Rightarrow> dom \<Rightarrow> bool" where
  "dom_contract cards d =
     (getElementById d ''mobile-menu'' \<noteq> None \<and>
      getElementById d ''navbar'' \<noteq> None \<and>
      getElementById d ''menu-toggle'' \<noteq> None \<and>
      (getElementById d ''contact-form'' = None \<or> getElementById d ''submit-btn'' \<noteq> None) \<and>
      (case getElementById d ''destination-modal'' of
         None \<Rightarrow> True
       | Some m \<Rightarrow>
           cards = 0 \<or>
           (getElementById d ''modal-close'' \<noteq> None \<and>
            querySelector d (\<lambda>i. is_descendant d m i \<and> has_class d ''modal-backdrop'' i) \<noteq> None \<and>
            getElementById d ''modal-cta-btn'' \<noteq> None \<and>
            querySelector d (\<lambda>i. is_descendant d m i \<and> has_class d ''modal-content'' i) \<noteq> None)))"

section \<open>Sample pages\<close>

text \<open>An element with a tag, attributes, classes and a parent, all other properties
  at their defaults.\<close>

definition element :: "string \<Rightarrow> (string \<times> string) list \<Rightarrow> string list \<Rightarrow> nat option \<Rightarrow> node" where
  "element t as cs par =
     \<lparr>tag = t, attrs = as, classes = cs, parent = par, isConnected = True, disabled = False,
      ownText = [], innerHTML = [], offsetTop = 0, offsetHeight = 0\<rparr>"

text \<open>A page whose body holds the two grid containers.\<close>

definition grid_page :: page where
  "grid_page =
     \<lparr>dom = [element ''body'' [] [] None,
             element ''div'' [(''id'', ''destinations-grid'')] [] (Some 0),
             element ''div'' [(''id'', ''brochures-grid'')] [] (Some 0)],
      scrollY = 0, innerWidth = 1280, hasIntersectionObserver = True, console = [], alerts = [],
      listeners = [], timers = [], clock = 0, inThrottle = (\<lambda>_. False), scrollTo = [],
      observed = [], defaultPrevented = False\<rparr>"

definition sample_destination :: destination where
  "sample_destination =
     \<lparr>d_image = Str ''https://images.unsplash.com/photo-1?ixlib=rb'', d_region = Str ''Europa'',
      d_name = Str ''Roma'', d_tagline = Str ''La citta eterna'', d_description = Str ''Tre giorni'',
      d_bestTime = Str ''Aprile'', d_highlights = Str ''Colosseo'', d_experiences = Str ''Cucina''\<rparr>"

text \<open>
  A page with the navigation bar (64 px high), the menu toggle with its icon, the
  hidden menu panel with one link, a link to the section \<^verbatim>\<open>about\<close> in the bar, a link
  to a fragment that no element has, and the section itself from 400 px to 1000 px;
  the window is scrolled to 500 px.
\<close>

definition menu_page :: page where
  "menu_page =
     \<lparr>dom = [element ''body'' [] [] None,
             (element ''nav'' [(''id'', ''navbar'')] [] (Some 0))\<lparr>offsetHeight := 64\<rparr>,
             element ''button'' [(''id'', ''menu-toggle''), (''aria-expanded'', ''false'')] [] (Some 1),
             element ''path'' [(''id'', ''menu-icon''), (''d'', ''M4 6h16M4 12h16M4 18h16'')] [] (Some 2),
             element ''div'' [(''id'', ''mobile-menu'')] [''hidden''] (Some 1),
             element ''a'' [(''href'', ''#about'')] [] (Some 4),
             element ''a'' [(''href'', ''#about'')] [] (Some 1),
             element ''a'' [(''href'', ''#missing'')] [] (Some 0),
             (element ''section'' [(''id'', ''about'')] [] (Some 0))\<lparr>offsetTop := 400, offsetHeight := 600\<rparr>],
      scrollY = 500, innerWidth = 1280, hasIntersectionObserver = True, console = [], alerts = [],
      listeners = [], timers = [], clock = 0, inThrottle = (\<lambda>_. False), scrollTo = [],
      observed = [], defaultPrevented = False\<rparr>"

definition menu_env :: env where
  "menu_env =
     \<lparr>navbar = Some 1, menuToggle = Some 2, mobileMenu = 4, mobileMenuLinks = [5],
      fadeElements = []\<rparr>"





text \<open>
  A page with three FAQ items, each a button and a content; the first two are open.
\<close>

definition faq_page :: page where
  "faq_page =
     \<lparr>dom = [element ''body'' [] [] None,
             element ''div'' [] [''faq-item'', ''open''] (Some 0),
             element ''button'' [] [] (Some 1),
             element ''div'' [] [''faq-content''] (Some 1),
             element ''div'' [] [''faq-item'', ''open''] (Some 0),
             element ''button'' [] [] (Some 4),
             element ''div'' [] [''faq-content''] (Some 4),
             element ''div'' [] [''faq-item''] (Some 0),
             element ''button'' [] [] (Some 7),
             element ''div'' [] [''faq-content'', ''hidden''] (Some 7)],
      scrollY = 0, innerWidth = 1280, hasIntersectionObserver = True, console = [], alerts = [],
      listeners = [], timers = [], clock = 0, inThrottle = (\<lambda>_. False), scrollTo = [],
      observed = [], defaultPrevented = False\<rparr>"

text \<open>
  The page above with a contact form after it: the form with an input and a textarea,
  the submit button with its text and its hidden spinner, and the hidden confirmation.
\<close>

definition form_page :: page where
  "form_page =
     menu_page\<lparr>dom := dom menu_page @
       [element ''form'' [(''id'', ''contact-form'')] [] (Some 0),
        element ''input'' [(''name'', ''email'')] [] (Some 9),
        element ''textarea'' [(''name'', ''message'')] [] (Some 9),
        element ''button'' [(''id'', ''submit-btn''), (''type'', ''submit'')] [] (Some 9),
        (element ''span'' [] [''btn-text''] (Some 12))\<lparr>ownText := ''Invia messaggio''\<rparr>,
        element ''span'' [] [''btn-spinner'', ''hidden''] (Some 12),
        element ''div'' [(''id'', ''form-success'')] [''hidden''] (Some 9)]\<rparr>"

definition form_closure :: contact_form where
  "form_closure = \<lparr>form = 9, submitBtn = 12, btnText = Some 13, btnSpinner = Some 14, formSuccess = Some 15\<rparr>"

text \<open>The form submitted, and the state once the POST has succeeded.\<close>

definition form_submitted :: page where
  "form_submitted = form_step menu_env form_closure 9 form_page (SubmitEvent 9)"

definition form_succeeded :: page where
  "form_succeeded = state_of (contactSubmit_resume form_closure (PostResponse True) form_submitted)"

text \<open>A page with the navigation bar and the toggle, but without the menu panel.\<close>

definition no_menu_page :: page where
  "no_menu_page =
     menu_page\<lparr>dom :=
       [element ''body'' [] [] None,
        element ''nav'' [(''id'', ''navbar'')] [] (Some 0),
        element ''button'' [(''id'', ''menu-toggle'')] [] (Some 1)]\<rparr>"
section \<open>Verified properties\<close>

subsection \<open>Strings\<close>

lemma includes_str_iff: "includes_str s t \<longleftrightarrow> (\<exists>a b. s = a @ t @ b)"
proof (induction s)
  case Nil
  then show ?case by auto
next
  case (Cons c cs)
  show ?case
  proof
    assume "includes_str (c # cs) t"
    then consider "prefix t (c # cs)" | "includes_str cs t" by auto
    then show "\<exists>a b. c # cs = a @ t @ b"
    proof cases
      case 1
      then obtain b where "c # cs = t @ b" by (auto simp: prefix_def)
      then have "c # cs = [] @ t @ b" by simp
      then show ?thesis by blast
    next
      case 2
      with Cons.IH obtain a b where "cs = a @ t @ b" by blast
      then have "c # cs = (c # a) @ t @ b" by simp
      then show ?thesis by blast
    qed
  next
    assume "\<exists>a b. c # cs = a @ t @ b"
    then obtain a b where ab: "c # cs = a @ t @ b" by blast
    show "includes_str (c # cs) t"
    proof (cases a)
      case Nil
      with ab have "prefix t (c # cs)" by (simp add: prefix_def)
      then show ?thesis by simp
    next
      case (Cons x a')
      with ab have "cs = a' @ t @ b" by simp
      with Cons.IH have "includes_str cs t" by blast
      then show ?thesis by simp
    qed
  qed
qed

lemma split_not_Nil: "split sep s \<noteq> []"
  by (induction s) (auto split: list.splits)

lemma first_piece_split: "first_piece (split sep s) = takeWhile (\<lambda>c. c \<noteq> sep) s"
proof (induction s)
  case Nil
  then show ?case by simp
next
  case (Cons c cs)
  then show ?case using split_not_Nil [of sep cs]
    by (cases "split sep cs") auto
qed

subsection \<open>Image URL normalisation\<close>

lemma unsplashUrl_Str:
  "unsplashUrl (Str u) q =
     (if includes_str u ''images.unsplash.com''
      then Str (takeWhile (\<lambda>c. c \<noteq> CHR ''?'') u @ ''?'' @ q) else Str u)"
proof (cases "u = []")
  case True
  then show ?thesis by (simp add: unsplashUrl_def)
next
  case False
  then show ?thesis by (simp add: unsplashUrl_def first_piece_split)
qed

lemma unsplashUrl_example:
  "unsplashUrl (Str ''https://cdn.example.com/x.jpg?foo=1'') q = Str ''https://cdn.example.com/x.jpg?foo=1''"
  by (simp add: unsplashUrl_def)

text \<open>
  Claim C6, as amended. The helper recognises a URL by a substring test. A URL whose
  text contains \<^verbatim>\<open>images.unsplash.com\<close> anywhere comes back as its part before the first
  \<^verbatim>\<open>?\<close>, followed by \<^verbatim>\<open>?\<close> and the requested directive; every other URL, an absent
  one, \<^verbatim>\<open>null\<close> and the empty string come back unchanged, among them
  \<^verbatim>\<open>https://cdn.example.com/x.jpg?foo=1\<close>.
\<close>

theorem unsplashUrl_substring_match:
  "unsplashUrl (Str u) q =
     (if includes_str u ''images.unsplash.com''
      then Str (takeWhile (\<lambda>c. c \<noteq> CHR ''?'') u @ ''?'' @ q) else Str u)
   \<and> unsplashUrl (Str (a @ ''images.unsplash.com'' @ b)) q =
       Str (takeWhile (\<lambda>c. c \<noteq> CHR ''?'') (a @ ''images.unsplash.com'' @ b) @ ''?'' @ q)
   \<and> unsplashUrl Undefined q = Undefined \<and> unsplashUrl Null q = Null
   \<and> unsplashUrl (Str []) q = Str []
   \<and> unsplashUrl (Str ''https://cdn.example.com/x.jpg?foo=1'') q
       = Str ''https://cdn.example.com/x.jpg?foo=1''"
proof -
  have "includes_str (a @ ''images.unsplash.com'' @ b) ''images.unsplash.com''"
    unfolding includes_str_iff by blast
  then have "unsplashUrl (Str (a @ ''images.unsplash.com'' @ b)) q =
       Str (takeWhile (\<lambda>c. c \<noteq> CHR ''?'') (a @ ''images.unsplash.com'' @ b) @ ''?'' @ q)"
    by (simp only: unsplashUrl_Str if_True)
  moreover have "unsplashUrl Undefined q = Undefined" "unsplashUrl Null q = Null"
    "unsplashUrl (Str []) q = Str []"
    by (simp_all add: unsplashUrl_def)
  ultimately show ?thesis
    using unsplashUrl_Str [of u q] unsplashUrl_example [of q] by blast
qed

theorem unsplashUrl_foreign_host_rewritten:
  "spec_url_host ''https://cdn.example.com/x.jpg?via=images.unsplash.com'' = ''cdn.example.com''
   \<and> unsplashUrl (Str ''https://cdn.example.com/x.jpg?via=images.unsplash.com'') ''auto=format&fit=crop&w=600&q=70''
       = Str ''https://cdn.example.com/x.jpg?auto=format&fit=crop&w=600&q=70''
   \<and> unsplashUrl (Str ''https://cdn.example.com/x.jpg?via=images.unsplash.com'') ''auto=format&fit=crop&w=600&q=70''
       \<noteq> Str ''https://cdn.example.com/x.jpg?via=images.unsplash.com''"
  by (simp add: spec_url_host_def unsplashUrl_def)

theorem unsplashUrl_substring_match_witness:
  "unsplashUrl (Str ''https://images.unsplash.com/photo-1?ixlib=rb&w=99'') ''auto=format&fit=crop&w=600&q=70''
     = Str ''https://images.unsplash.com/photo-1?auto=format&fit=crop&w=600&q=70''
   \<and> unsplashUrl (Str ''assets/img/local.jpg'') ''auto=format&fit=crop&w=600&q=70''
     = Str ''assets/img/local.jpg''"
  using unsplashUrl_substring_match
          [of "''https://images.unsplash.com/photo-1?ixlib=rb&w=99''"
              "''auto=format&fit=crop&w=600&q=70''" "[]" "[]"]
        unsplashUrl_substring_match
          [of "''assets/img/local.jpg''" "''auto=format&fit=crop&w=600&q=70''" "[]" "[]"]
  by simp

subsection \<open>Card grids\<close>

lemma getElementById_Some:
  "getElementById d x = Some i \<Longrightarrow> i < length d \<and> has_id d x i"
  by (auto simp: getElementById_def querySelector_def find_Some_iff)

lemma tpl_or_empty: "tpl (js_or v (Str [])) = field_text v"
  by (cases v) (auto simp: js_or_def field_text_def)

lemma tpl_truthy: "truthy v \<Longrightarrow> tpl v = field_text v"
  by (cases v) (auto simp: field_text_def)

lemma map_cards_objects: "map_cards f (map JObj xs) = Inr (map f xs)"
  by (induction xs) auto

lemma map_cards_null: "JNull \<in> set es \<Longrightarrow> map_cards f es = Inl TypeError"
proof (induction es)
  case Nil
  then show ?case by simp
next
  case (Cons e es)
  then show ?case by (cases e) (auto split: sum.splits)
qed

lemma destinationCard_slots:
  "destinationCard d =
     destinationTemplate
       (field_text (unsplashUrl (d_image d) ''auto=format&fit=crop&w=1200&q=80''))
       (field_text (d_region d)) (field_text (d_name d)) (field_text (d_tagline d))
       (field_text (d_description d)) (field_text (d_bestTime d))
       (field_text (d_highlights d)) (field_text (d_experiences d))
       (field_text (unsplashUrl (d_image d) ''auto=format&fit=crop&w=600&q=70''))"
  by (simp only: destinationCard_def Let_def tpl_or_empty)

lemma brochureCard_slots:
  \<open>brochureCard b =
     brochureTemplate
       (if truthy (b_pdf b) then ''assets/brochures/'' @ field_text (b_pdf b) else ''#'')
       (field_text (unsplashUrl (b_image b) ''auto=format&fit=crop&w=800&q=70''))
       (field_text (b_destination b))
       (if truthy (b_date b)
        then ''<p class="text-secondary text-sm font-medium mb-1">'' @ field_text (b_date b) @ ''</p>''
        else [])
       (field_text (b_description b))\<close>
proof -
  have pdf: "(if truthy (b_pdf b) then ''assets/brochures/'' @ tpl (b_pdf b) else ''#'')
      = (if truthy (b_pdf b) then ''assets/brochures/'' @ field_text (b_pdf b) else ''#'')"
    by (simp only: tpl_truthy cong: if_cong)
  have date: "\<And>a z. (if truthy (b_date b) then a @ tpl (b_date b) @ z else [])
      = (if truthy (b_date b) then a @ field_text (b_date b) @ z else [])"
    by (simp only: tpl_truthy cong: if_cong)
  show ?thesis
    by (simp only: brochureCard_def Let_def tpl_or_empty pdf date)
qed

lemma loadDestinations_objects:
  assumes "getElementById (dom p) ''destinations-grid'' = Some g"
  shows "loadDestinations (Parsed (JArray (map JObj ds))) p =
           p\<lparr>dom := upd g (\<lambda>n. n\<lparr>innerHTML := concat (map destinationCard ds)\<rparr>) (dom p)\<rparr>"
  using assms by (simp add: loadDestinations_def map_cards_objects)

lemma loadBrochures_objects:
  assumes "getElementById (dom p) ''brochures-grid'' = Some g"
  shows "loadBrochures (Parsed (JArray (map JObj bs))) p =
           p\<lparr>dom := upd g (\<lambda>n. n\<lparr>innerHTML := concat (map brochureCard bs)\<rparr>) (dom p)\<rparr>"
  using assms by (simp add: loadBrochures_def map_cards_objects)

lemma innerHTML_upd:
  "g < length d \<Longrightarrow> innerHTML (upd g (\<lambda>n. n\<lparr>innerHTML := h\<rparr>) d ! g) = h"
  by (simp add: upd_def)

lemma load_fails_markup: "load_fails outcome \<Longrightarrow> \<exists>e. grid_markup f outcome = Inl e"
  by (induction outcome rule: load_fails.induct) (auto simp: map_cards_null)

lemma grid_page_ids:
  "getElementById (dom grid_page) ''destinations-grid'' = Some 1"
  "getElementById (dom grid_page) ''brochures-grid'' = Some 2"
  by (simp_all add: grid_page_def getElementById_def querySelector_def has_id_def
        getAttribute_def element_def upt_rec)

text \<open>
  Claim C7, as amended. For a fetched array of records each loader replaces the markup
  of its container by the concatenation of one card per item, in array order, and
  changes nothing else. Every slot of a destination card receives the text of its
  field, which is empty for a field that is absent or \<^verbatim>\<open>null\<close>; the same holds for a
  brochure card, except that an absent or empty \<^verbatim>\<open>pdf\<close> gives the link target
  \<^verbatim>\<open>#\<close> and an absent or empty \<^verbatim>\<open>date\<close> leaves its paragraph out.
\<close>

theorem grid_cards_in_order:
  assumes "getElementById (dom p) ''destinations-grid'' = Some g"
    and "getElementById (dom p) ''brochures-grid'' = Some h"
  shows \<open>loadDestinations (Parsed (JArray (map JObj ds))) p =
           p\<lparr>dom := upd g (\<lambda>n. n\<lparr>innerHTML := concat (map destinationCard ds)\<rparr>) (dom p)\<rparr>
       \<and> innerHTML (dom (loadDestinations (Parsed (JArray (map JObj ds))) p) ! g)
           = concat (map destinationCard ds)
       \<and> loadBrochures (Parsed (JArray (map JObj bs))) p =
           p\<lparr>dom := upd h (\<lambda>n. n\<lparr>innerHTML := concat (map brochureCard bs)\<rparr>) (dom p)\<rparr>
       \<and> innerHTML (dom (loadBrochures (Parsed (JArray (map JObj bs))) p) ! h)
           = concat (map brochureCard bs)
       \<and> destinationCard d =
           destinationTemplate
             (field_text (unsplashUrl (d_image d) ''auto=format&fit=crop&w=1200&q=80''))
             (field_text (d_region d)) (field_text (d_name d)) (field_text (d_tagline d))
             (field_text (d_description d)) (field_text (d_bestTime d))
             (field_text (d_highlights d)) (field_text (d_experiences d))
             (field_text (unsplashUrl (d_image d) ''auto=format&fit=crop&w=600&q=70''))
       \<and> brochureCard b =
           brochureTemplate
             (if truthy (b_pdf b) then ''assets/brochures/'' @ field_text (b_pdf b) else ''#'')
             (field_text (unsplashUrl (b_image b) ''auto=format&fit=crop&w=800&q=70''))
             (field_text (b_destination b))
             (if truthy (b_date b)
              then ''<p class="text-secondary text-sm font-medium mb-1">'' @ field_text (b_date b) @ ''</p>''
              else [])
             (field_text (b_description b))
       \<and> field_text Undefined = [] \<and> field_text Null = []
       \<and> unsplashUrl Undefined q = Undefined \<and> unsplashUrl Null q = Null\<close>
proof -
  have g: "g < length (dom p)" and h: "h < length (dom p)"
    using assms getElementById_Some by blast+
  have "innerHTML (dom (loadDestinations (Parsed (JArray (map JObj ds))) p) ! g)
           = concat (map destinationCard ds)"
    by (simp add: loadDestinations_objects [OF assms(1)] innerHTML_upd [OF g])
  moreover have "innerHTML (dom (loadBrochures (Parsed (JArray (map JObj bs))) p) ! h)
           = concat (map brochureCard bs)"
    by (simp add: loadBrochures_objects [OF assms(2)] innerHTML_upd [OF h])
  moreover have "field_text Undefined = []" "field_text Null = []"
    "unsplashUrl Undefined q = Undefined" "unsplashUrl Null q = Null"
    by (simp_all add: field_text_def unsplashUrl_def)
  ultimately show ?thesis
    using loadDestinations_objects [OF assms(1), of ds] loadBrochures_objects [OF assms(2), of bs]
      destinationCard_slots [of d] brochureCard_slots [of b]
    by blast
qed

theorem grid_cards_in_order_witness:
  "getElementById (dom grid_page) ''destinations-grid'' = Some 1
   \<and> getElementById (dom grid_page) ''brochures-grid'' = Some 2
   \<and> innerHTML (dom (loadDestinations
         (Parsed (JArray (map JObj [sample_destination, absent_destination]))) grid_page) ! 1)
       = concat (map destinationCard [sample_destination, absent_destination])
   \<and> destinationCard absent_destination = destinationTemplate [] [] [] [] [] [] [] [] []"
proof -
  note inst = grid_cards_in_order [OF grid_page_ids, of "[sample_destination, absent_destination]"
      "[]" absent_destination absent_brochure "[]"]
  have "destinationCard absent_destination = destinationTemplate [] [] [] [] [] [] [] [] []"
    using inst by (simp add: absent_destination_def field_text_def unsplashUrl_def)
  then show ?thesis using inst grid_page_ids by blast
qed

theorem brochure_absent_pdf_is_hash:
  "brochureCard absent_brochure = brochureTemplate ''#'' [] [] [] []
   \<and> brochureTemplate ''#'' [] [] [] [] \<noteq> brochureTemplate [] [] [] [] []"
proof -
  have "brochureCard absent_brochure = brochureTemplate ''#'' [] [] [] []"
    by (simp add: brochureCard_slots absent_brochure_def field_text_def unsplashUrl_def)
  moreover have "brochureTemplate ''#'' [] [] [] [] \<noteq> brochureTemplate [] [] [] [] []"
    by (simp add: brochureTemplate_def)
  ultimately show ?thesis by blast
qed

text \<open>
  Claim C8. When the container exists and the fetch is rejected, the body does not
  parse, or rendering throws (the value is no array, or an element is \<^verbatim>\<open>null\<close>), the
  loader appends one error entry to the console and leaves everything else as it was:
  the document, and with it the markup of the container, and the alerts.
\<close>

theorem grid_load_failure_logged:
  assumes "getElementById (dom p) ''destinations-grid'' = Some g"
    and "getElementById (dom p) ''brochures-grid'' = Some h"
    and "load_fails od" and "load_fails ob"
  shows "(\<exists>e. loadDestinations od p =
              p\<lparr>console := console p @ [LogError ''Error loading destinations:'' e]\<rparr>)
       \<and> dom (loadDestinations od p) = dom p \<and> alerts (loadDestinations od p) = alerts p
       \<and> (\<exists>e. loadBrochures ob p =
              p\<lparr>console := console p @ [LogError ''Error loading brochures:'' e]\<rparr>)
       \<and> dom (loadBrochures ob p) = dom p \<and> alerts (loadBrochures ob p) = alerts p"
proof -
  obtain e where e: "grid_markup destinationCard od = Inl e"
    using load_fails_markup [OF assms(3)] by blast
  obtain e' where e': "grid_markup brochureCard ob = Inl e'"
    using load_fails_markup [OF assms(4)] by blast
  have d: "loadDestinations od p =
      p\<lparr>console := console p @ [LogError ''Error loading destinations:'' e]\<rparr>"
    using assms(1) e by (simp add: loadDestinations_def)
  have b: "loadBrochures ob p =
      p\<lparr>console := console p @ [LogError ''Error loading brochures:'' e']\<rparr>"
    using assms(2) e' by (simp add: loadBrochures_def)
  have "\<exists>e. loadDestinations od p =
      p\<lparr>console := console p @ [LogError ''Error loading destinations:'' e]\<rparr>"
    using d by blast
  moreover have "\<exists>e. loadBrochures ob p =
      p\<lparr>console := console p @ [LogError ''Error loading brochures:'' e]\<rparr>"
    using b by blast
  moreover have "dom (loadDestinations od p) = dom p" "alerts (loadDestinations od p) = alerts p"
    "dom (loadBrochures ob p) = dom p" "alerts (loadBrochures ob p) = alerts p"
    by (simp_all add: d b)
  ultimately show ?thesis by blast
qed

theorem grid_load_failure_logged_witness:
  "load_fails (FetchRejected :: destination fetched)
   \<and> load_fails (Parsed (JArray [JObj absent_brochure, JNull]))
   \<and> (\<exists>e. loadDestinations FetchRejected grid_page =
          grid_page\<lparr>console := console grid_page @ [LogError ''Error loading destinations:'' e]\<rparr>)
   \<and> dom (loadDestinations FetchRejected grid_page) = dom grid_page
   \<and> dom (loadBrochures (Parsed (JArray [JObj absent_brochure, JNull])) grid_page) = dom grid_page"
proof -
  have f1: "load_fails (FetchRejected :: destination fetched)" by simp
  have f2: "load_fails (Parsed (JArray [JObj absent_brochure, JNull]))" by simp
  show ?thesis
    using grid_load_failure_logged [OF grid_page_ids f1 f2] f1 f2 by blast
qed

subsection \<open>Writes to elements\<close>

lemma length_upd [simp]: "length (upd i f d) = length d"
  by (simp add: upd_def)

lemma nth_upd: "upd i f d ! j = (if j = i \<and> i < length d then f (d ! i) else d ! j)"
  by (cases "i < length d") (auto simp: upd_def nth_list_update list_update_beyond)

lemma classes_setAttribute [simp]: "classes (setAttribute k v n) = classes n"
  by (simp add: setAttribute_def)

lemma set_classes_add [simp]: "set (classes (classList_add c n)) = insert c (set (classes n))"
  by (auto simp: classList_add_def)

lemma set_classes_remove [simp]: "set (classes (classList_remove c n)) = set (classes n) - {c}"
  by (simp add: classList_remove_def)

lemma has_class_upd_add [simp]:
  "has_class (upd i (classList_add c') d) c j \<longleftrightarrow>
     has_class d c j \<or> (j = i \<and> i < length d \<and> c = c')"
  by (auto simp: has_class_def classList_contains_def nth_upd)

lemma has_class_upd_remove [simp]:
  "has_class (upd i (classList_remove c') d) c j \<longleftrightarrow>
     has_class d c j \<and> \<not> (j = i \<and> i < length d \<and> c = c')"
  by (auto simp: has_class_def classList_contains_def nth_upd)

lemma has_class_upd_same:
  "(\<And>n. classes (f n) = classes n) \<Longrightarrow> has_class (upd i f d) c j = has_class d c j"
  by (simp add: has_class_def classList_contains_def nth_upd)

lemma has_class_upd_setAttribute [simp]:
  "has_class (upd i (setAttribute k v) d) c j = has_class d c j"
  by (simp add: has_class_upd_same)

lemma has_class_upd_ownText [simp]:
  "has_class (upd i (\<lambda>n. n\<lparr>ownText := x\<rparr>) d) c j = has_class d c j"
  by (simp add: has_class_upd_same)

lemma nth_beyond:
  assumes "length xs = length ys" and "length xs \<le> n"
  shows "xs ! n = ys ! n"
proof -
  have "xs ! n = [] ! (n - length xs)" using nth_append [of xs "[]" n] assms(2) by simp
  moreover have "ys ! n = [] ! (n - length ys)" using nth_append [of ys "[]" n] assms by simp
  ultimately show ?thesis using assms(1) by simp
qed

lemma length_remove_children [simp]: "length (remove_children b d) = length d"
  by (simp add: remove_children_def)

lemma nth_remove_children:
  "remove_children b d ! j =
     (if j < length d \<and> is_descendant d b j
      then (d ! j)\<lparr>isConnected := False,
                   parent := (if parent (d ! j) = Some b then None else parent (d ! j))\<rparr>
      else d ! j)"
proof (cases "j < length d")
  case True
  then show ?thesis by (simp add: remove_children_def Let_def)
next
  case False
  then have "remove_children b d ! j = d ! j"
    by (intro nth_beyond) simp_all
  then show ?thesis using False by simp
qed

lemma length_set_textContent [simp]: "length (set_textContent b s d) = length d"
  by (simp add: set_textContent_def)

lemma set_textContent_keeps [simp]:
  "classes (set_textContent b s d ! j) = classes (d ! j)"
  "disabled (set_textContent b s d ! j) = disabled (d ! j)"
  "tag (set_textContent b s d ! j) = tag (d ! j)"
  "attrs (set_textContent b s d ! j) = attrs (d ! j)"
  "offsetTop (set_textContent b s d ! j) = offsetTop (d ! j)"
  "offsetHeight (set_textContent b s d ! j) = offsetHeight (d ! j)"
  by (simp_all add: set_textContent_def nth_upd nth_remove_children)

lemma has_class_set_textContent [simp]:
  "has_class (set_textContent b s d) c j = has_class d c j"
  by (simp add: has_class_def classList_contains_def)

lemma has_class_upd_disabled [simp]:
  "has_class (upd i (\<lambda>n. n\<lparr>disabled := x\<rparr>) d) c j = has_class d c j"
  by (simp add: has_class_upd_same)


lemma seq_Cons_Done:
  "seq (s # ss) p = Done q \<longleftrightarrow> (\<exists>p'. s p = Done p' \<and> seq ss p' = Done q)"
  by (auto split: outcome.splits)

lemma seq_append_Done:
  "seq (xs @ ys) p = Done q \<longleftrightarrow> (\<exists>p'. seq xs p = Done p' \<and> seq ys p' = Done q)"
  by (induction xs arbitrary: p) (auto split: outcome.splits)

subsection \<open>Mobile menu\<close>






subsection \<open>Timeouts\<close>

lemma run_timer_RestoreButton:
  "run_timer e (RestoreButton b x) q =
     Done (q\<lparr>dom := upd b (\<lambda>n. n\<lparr>disabled := False\<rparr>) (set_textContent b x (dom q))\<rparr>)"
  by (simp add: write_el_def)

lemma run_timer_length [simp]: "length (dom (state_of (run_timer e cb q))) = length (dom q)"
  by (cases cb) (simp_all add: run_timer_RestoreButton write_el_def)

lemma run_timer_open [simp]:
  "has_class (dom (state_of (run_timer e cb q))) ''open'' j = has_class (dom q) ''open'' j"
  by (cases cb) (simp_all add: run_timer_RestoreButton write_el_def)




lemma foldl_timers_dom:
  assumes "Q (dom q0)"
    and "\<And>q cb. Q (dom q) \<Longrightarrow> Q (dom (state_of (run_timer e cb q)))"
  shows "Q (dom (foldl (\<lambda>q x. state_of (run_timer e (snd x) (q\<lparr>clock := fst x\<rparr>))) q0 xs))"
  using assms(1)
proof (induction xs arbitrary: q0)
  case Nil
  then show ?case by simp
next
  case (Cons x xs)
  have "Q (dom (state_of (run_timer e (snd x) (q0\<lparr>clock := fst x\<rparr>))))"
    using assms(2) [of "q0\<lparr>clock := fst x\<rparr>" "snd x"] Cons.prems by simp
  then show ?case using Cons.IH by simp
qed

lemma advance_dom:
  assumes "Q (dom p)"
    and "\<And>q cb. Q (dom q) \<Longrightarrow> Q (dom (state_of (run_timer e cb q)))"
  shows "Q (dom (advance e dt p))"
proof -
  have "Q (dom (p\<lparr>timers := filter (\<lambda>x. \<not> fst x \<le> clock p + dt) (timers p)\<rparr>))"
    using assms(1) by simp
  from foldl_timers_dom [where Q = Q, OF this assms(2)]
  show ?thesis by (simp add: advance_def Let_def)
qed

lemma advance_length [simp]: "length (dom (advance e dt p)) = length (dom p)"
  by (rule advance_dom [where Q = "\<lambda>d. length d = length (dom p)"]) simp_all





lemma run_timer_timers [simp]: "timers (state_of (run_timer e cb q)) = timers q"
  by (cases cb) (simp_all add: run_timer_RestoreButton write_el_def)



lemma advance_clock [simp]: "clock (advance e dt p) = clock p + dt"
  by (simp add: advance_def Let_def)

lemma is_done_state_of: "is_done x \<Longrightarrow> x = Done (state_of x)"
  by (cases x) simp_all

lemma menu_env_start: "script_start (dom menu_page) = Inr menu_env"
  by code_simp








subsection \<open>Smooth scroll\<close>

text \<open>
  Claim C3, as amended. When the click listener \<^verbatim>\<open>handleSmoothScroll\<close> runs for a link
  whose \<^verbatim>\<open>href\<close> starts with \<^verbatim>\<open>#\<close> and no element of the document has the fragment as
  its id, it calls \<^verbatim>\<open>preventDefault\<close> before it looks the target up: the default
  navigation is suppressed. The listener then returns normally; it has requested no
  scroll and changed nothing but the flag of the event.
\<close>

theorem smooth_scroll_unresolved_target:
  assumes "getAttribute (dom p ! this) ''href'' = Some href"
    and "startsWith href ''#''"
    and "getElementById (dom p) (substring href 1) = None"
  shows "handleSmoothScroll e this p = Done (p\<lparr>defaultPrevented := True\<rparr>)"
  using assms by (simp add: handleSmoothScroll_def)

theorem smooth_scroll_unresolved_target_witness:
  "getAttribute (dom menu_page ! 7) ''href'' = Some ''#missing''
   \<and> getElementById (dom menu_page) (substring ''#missing'' 1) = None
   \<and> handleSmoothScroll menu_env 7 menu_page = Done (menu_page\<lparr>defaultPrevented := True\<rparr>)"
proof -
  have h1: "getAttribute (dom menu_page ! 7) ''href'' = Some ''#missing''"
    by code_simp
  have h2: "startsWith ''#missing'' ''#''"
    by code_simp
  have h3: "getElementById (dom menu_page) (substring ''#missing'' 1) = None"
    by code_simp
  from smooth_scroll_unresolved_target [OF h1 h2 h3, of menu_env] h1 h3
  show ?thesis by blast
qed

theorem smooth_scroll_default_suppressed:
  "getElementById (dom menu_page) (substring ''#missing'' 1) = None
   \<and> \<not> defaultPrevented menu_page
   \<and> is_done (handleSmoothScroll menu_env 7 menu_page)
   \<and> defaultPrevented (state_of (handleSmoothScroll menu_env 7 menu_page))"
  by code_simp

subsection \<open>What a write leaves alone\<close>

lemma frame_class_writes [simp]:
  "frame (classList_add c n) = frame n" "frame (classList_remove c n) = frame n"
  "attrs (classList_add c n) = attrs n" "attrs (classList_remove c n) = attrs n"
  by (simp_all add: frame_def classList_add_def classList_remove_def)

lemma map_upd_same:
  assumes "\<And>n. g (f n) = g n"
  shows "map g (upd i f d) = map g d"
  by (rule nth_equalityI) (simp_all add: nth_upd assms)

lemma foldl_upd_same:
  assumes "\<And>n. g (f n) = g n"
  shows "map g (foldl (\<lambda>d l. upd l f d) d ls) = map g d"
  by (induction ls arbitrary: d) (simp_all add: map_upd_same assms)

lemma foldl_upd_length [simp]: "length (foldl (\<lambda>d l. upd l f d) d ls) = length d"
  by (induction ls arbitrary: d) simp_all

lemma foldl_upd_nth:
  "(foldl (\<lambda>d l. upd l f d) d ls) ! j =
     (if j \<in> set ls \<and> j < length d then (f ^^ count_list ls j) (d ! j) else d ! j)"
proof (induction ls arbitrary: d)
  case Nil
  then show ?case by simp
next
  case (Cons l ls)
  show ?case
    by (simp add: Cons.IH nth_upd funpow_swap1)
qed

lemma same_map_nth:
  assumes "map g d' = map g d" and "i < length d"
  shows "g (d' ! i) = g (d ! i)"
proof -
  have "length d' = length d" using assms(1) by (metis length_map)
  then have "map g d' ! i = g (d' ! i)" "map g d ! i = g (d ! i)"
    using assms(2) by simp_all
  then show ?thesis using assms(1) by simp
qed

lemma same_map_length: "map g d' = map g d \<Longrightarrow> length d' = length d"
  by (metis length_map)

lemma is_descendant_frame:
  assumes "map frame d' = map frame d"
  shows "i < length d \<Longrightarrow> is_descendant d' a i = is_descendant d a i"
proof (induction i rule: less_induct)
  case (less i)
  have par: "parent (d' ! i) = parent (d ! i)"
    using same_map_nth [OF assms less.prems] by (simp add: frame_def)
  show ?case
  proof (cases "parent (d ! i)")
    case None
    then show ?thesis using par
      by (simp add: is_descendant.simps [of d' a i] is_descendant.simps [of d a i])
  next
    case (Some q)
    show ?thesis
    proof (cases "q < i")
      case True
      then have "q < length d" using less.prems by simp
      from less.IH [OF True this] show ?thesis
        using par Some True
        by (simp add: is_descendant.simps [of d' a i] is_descendant.simps [of d a i])
    next
      case False
      then show ?thesis using par Some
        by (simp add: is_descendant.simps [of d' a i] is_descendant.simps [of d a i])
    qed
  qed
qed

lemma isConnected_frame:
  assumes "map frame d' = map frame d" and "i < length d"
  shows "isConnected (d' ! i) = isConnected (d ! i)"
  using same_map_nth [OF assms] by (simp add: frame_def)

lemma querySelectorAll_cong:
  assumes "map frame d' = map frame d" and "\<And>i. i < length d \<Longrightarrow> sel' i = sel i"
  shows "querySelectorAll d' sel' = querySelectorAll d sel"
  unfolding querySelectorAll_def
  using assms isConnected_frame [OF assms(1)] same_map_length [OF assms(1)]
  by (auto intro: filter_cong)

lemma set_querySelectorAll:
  "set (querySelectorAll d sel) = {i. i < length d \<and> isConnected (d ! i) \<and> sel i}"
  by (auto simp: querySelectorAll_def)

lemma distinct_querySelectorAll [simp]: "distinct (querySelectorAll d sel)"
  by (simp add: querySelectorAll_def)

lemma sorted_querySelectorAll: "sorted_wrt (<) (querySelectorAll d sel)"
  unfolding querySelectorAll_def by (rule sorted_wrt_filter) simp


subsection \<open>Scroll chrome\<close>

lemma handleNavbarScroll_Some:
  assumes "navbar e = Some nb"
  shows "handleNavbarScroll e p =
     Done (p\<lparr>dom := upd nb (if scrollY p > 100 then classList_add ''scrolled''
                               else classList_remove ''scrolled'') (dom p)\<rparr>)"
  using assms by (simp add: handleNavbarScroll_def write_el_def)

lemma handleNavbarScroll_Done:
  assumes "handleNavbarScroll e p = Done q"
  shows "\<exists>nb. navbar e = Some nb"
  using assms by (cases "navbar e") (auto simp: handleNavbarScroll_def write_el_def split: if_splits)

lemma updateActiveNavLink_Some:
  assumes "navbar e = Some nb"
  shows "updateActiveNavLink e p =
     Done (p\<lparr>dom := foldl (\<lambda>d' l. upd l
                (link_step (current_section (dom p)
                   (js_add (js_add (scrollY p) (of_int (offsetHeight (dom p ! nb)))) 100))) d')
              (dom p) (querySelectorAll (dom p) (navbar_link (dom p)))\<rparr>)"
  using assms by (simp add: updateActiveNavLink_def current_section_def Let_def)

lemma getAttribute_class_writes [simp]:
  "getAttribute (classList_add c n) k = getAttribute n k"
  "getAttribute (classList_remove c n) k = getAttribute n k"
  by (simp_all add: getAttribute_def)

lemma has_class_upd_link_step:
  "has_class (upd i (link_step cur) d) c j \<longleftrightarrow>
     (if j = i \<and> i < length d \<and> c = ''text-secondary''
      then getAttribute (d ! i) ''href'' = Some (''#'' @ cur)
      else has_class d c j)"
  by (auto simp: has_class_def classList_contains_def nth_upd link_step_def Let_def)

lemma frame_link_step [simp]:
  "frame (link_step cur n) = frame n" "attrs (link_step cur n) = attrs n"
  by (simp_all add: link_step_def Let_def)

lemma foldl_link_step_other:
  assumes "c \<noteq> ''text-secondary'' \<or> j \<notin> set ls"
  shows "has_class (foldl (\<lambda>d l. upd l (link_step cur) d) d ls) c j = has_class d c j"
  using assms by (induction ls arbitrary: d) (auto simp: has_class_upd_link_step)

lemma foldl_link_step_link:
  assumes "j \<in> set ls" and "j < length d"
  shows "has_class (foldl (\<lambda>d l. upd l (link_step cur) d) d ls) ''text-secondary'' j
         \<longleftrightarrow> getAttribute (d ! j) ''href'' = Some (''#'' @ cur)"
  using assms
proof (induction ls arbitrary: d rule: rev_induct)
  case Nil
  then show ?case by simp
next
  case (snoc l ls)
  let ?d = "foldl (\<lambda>d l. upd l (link_step cur) d) d ls"
  have attr: "getAttribute (?d ! j) ''href'' = getAttribute (d ! j) ''href''"
  proof -
    have "map attrs ?d = map attrs d" by (rule foldl_upd_same) simp
    from same_map_nth [OF this snoc.prems(2)] show ?thesis by (simp add: getAttribute_def)
  qed
  show ?case
  proof (cases "j = l")
    case True
    then show ?thesis using snoc.prems attr by (simp add: has_class_upd_link_step)
  next
    case False
    with snoc.prems have "j \<in> set ls" by simp
    from snoc.IH [OF this snoc.prems(2)] False show ?thesis
      by (simp add: has_class_upd_link_step)
  qed
qed

lemma selectors_same:
  assumes f: "map frame d' = map frame d" and a: "map attrs d' = map attrs d" and i: "i < length d"
  shows "has_tag d' t i = has_tag d t i"
    and "getAttribute (d' ! i) k = getAttribute (d ! i) k"
    and "has_id d' x i = has_id d x i"
    and "anchor_link d' i = anchor_link d i"
    and "section_with_id d' i = section_with_id d i"
    and "offsetTop (d' ! i) = offsetTop (d ! i)"
    and "offsetHeight (d' ! i) = offsetHeight (d ! i)"
    and "in_span d' pos i = in_span d pos i"
    and "section_step d' pos c i = section_step d pos c i"
proof -
  have fr: "frame (d' ! i) = frame (d ! i)" using same_map_nth [OF f i] .
  have at: "attrs (d' ! i) = attrs (d ! i)" using same_map_nth [OF a i] .
  show "has_tag d' t i = has_tag d t i" using fr by (simp add: has_tag_def frame_def)
  show ga: "getAttribute (d' ! i) k = getAttribute (d ! i) k" for k
    using at by (simp add: getAttribute_def)
  show "has_id d' x i = has_id d x i" using at by (simp add: has_id_def getAttribute_def)
  show "anchor_link d' i = anchor_link d i"
    using fr at by (simp add: anchor_link_def has_tag_def frame_def getAttribute_def)
  show "section_with_id d' i = section_with_id d i"
    using fr at by (simp add: section_with_id_def has_tag_def frame_def getAttribute_def)
  show "offsetTop (d' ! i) = offsetTop (d ! i)" "offsetHeight (d' ! i) = offsetHeight (d ! i)"
    using fr by (simp_all add: frame_def)
  then show "in_span d' pos i = in_span d pos i" by (simp add: in_span_def)
  show "section_step d' pos c i = section_step d pos c i"
    using fr at by (simp add: section_step_def frame_def getAttribute_def Let_def)
qed

lemma navbar_link_same:
  assumes f: "map frame d' = map frame d" and a: "map attrs d' = map attrs d" and i: "i < length d"
  shows "navbar_link d' i = navbar_link d i"
proof -
  have len: "length d' = length d" using f by (rule same_map_length)
  have "(\<exists>x \<in> set [0..<length d']. has_id d' ''navbar'' x \<and> is_descendant d' x i)
      = (\<exists>x \<in> set [0..<length d]. has_id d ''navbar'' x \<and> is_descendant d x i)"
    using len is_descendant_frame [OF f i] selectors_same(3) [OF f a] by auto
  then show ?thesis
    using selectors_same(4) [OF f a i] by (simp add: navbar_link_def)
qed

lemma navLinks_same:
  assumes "map frame d' = map frame d" and "map attrs d' = map attrs d"
  shows "querySelectorAll d' (navbar_link d') = querySelectorAll d (navbar_link d)"
  by (rule querySelectorAll_cong) (simp_all add: assms(1) navbar_link_same [OF assms])

lemma foldl_cong_set:
  assumes "\<And>c x. x \<in> set xs \<Longrightarrow> f c x = g c x"
  shows "foldl f c xs = foldl g c xs"
  using assms by (induction xs arbitrary: c) simp_all

lemma current_section_same:
  assumes "map frame d' = map frame d" and "map attrs d' = map attrs d"
  shows "current_section d' pos = current_section d pos"
proof -
  have s: "querySelectorAll d' (section_with_id d') = querySelectorAll d (section_with_id d)"
    by (rule querySelectorAll_cong) (simp_all add: assms(1) selectors_same(5) [OF assms])
  show ?thesis
    unfolding current_section_def s
    by (rule foldl_cong_set) (simp add: set_querySelectorAll selectors_same(9) [OF assms])
qed

lemma section_step_span:
  "section_step d pos c s =
     (if in_span d pos s then (case getAttribute (d ! s) ''id'' of None \<Rightarrow> ''null'' | Some x \<Rightarrow> x)
      else c)"
  by (simp add: section_step_def in_span_def Let_def)

lemma foldl_section_step_outside:
  assumes "\<forall>z \<in> set zs. \<not> in_span d pos z"
  shows "foldl (section_step d pos) c zs = c"
  using assms by (induction zs arbitrary: c) (simp_all add: section_step_span)

lemma current_section_none:
  assumes "\<forall>s \<in> set (querySelectorAll d (section_with_id d)). \<not> in_span d pos s"
  shows "current_section d pos = []"
  unfolding current_section_def using assms by (rule foldl_section_step_outside)

lemma current_section_last:
  assumes s: "s \<in> set (querySelectorAll d (section_with_id d))"
    and span: "in_span d pos s"
    and ident: "getAttribute (d ! s) ''id'' = Some x"
    and last: "\<forall>z \<in> set (querySelectorAll d (section_with_id d)). s < z \<longrightarrow> \<not> in_span d pos z"
  shows "current_section d pos = x"
proof -
  obtain ys zs where split: "querySelectorAll d (section_with_id d) = ys @ s # zs"
    using s by (meson split_list)
  have "sorted_wrt (<) (ys @ s # zs)"
    using sorted_querySelectorAll [of d "section_with_id d"] split by simp
  then have "\<forall>z \<in> set zs. s < z"
    by (simp add: sorted_wrt_append)
  then have out: "\<forall>z \<in> set zs. \<not> in_span d pos z"
    using last split by simp
  have "current_section d pos
      = foldl (section_step d pos) (section_step d pos (foldl (section_step d pos) [] ys) s) zs"
    by (simp add: current_section_def split)
  also have "\<dots> = foldl (section_step d pos) x zs"
    using span ident by (simp add: section_step_span)
  also have "\<dots> = x"
    using out by (rule foldl_section_step_outside)
  finally show ?thesis .
qed

subsection \<open>Initialisation\<close>

lemma seq_rel:
  assumes refl: "\<And>p. R p p" and trans: "\<And>p q r. R p q \<Longrightarrow> R q r \<Longrightarrow> R p r"
    and steps: "\<And>s p q. s \<in> set ss \<Longrightarrow> s p = Done q \<Longrightarrow> R p q"
    and run: "seq ss p = Done q"
  shows "R p q"
  using steps run
proof (induction ss arbitrary: p)
  case Nil
  then show ?case using refl by simp
next
  case (Cons s ss)
  from Cons.prems(2) obtain p' where s: "s p = Done p'" and rest: "seq ss p' = Done q"
    by (auto split: outcome.splits)
  have "R p p'" using Cons.prems(1) [of s p p'] s by simp
  moreover have "R p' q"
  proof (rule Cons.IH [OF _ rest])
    fix s' a b assume "s' \<in> set ss" and "s' a = Done b"
    then show "R a b" using Cons.prems(1) [of s' a b] by simp
  qed
  ultimately show ?case using trans by blast
qed

lemma addEventListener_Done:
  "addEventListener l p = Done q \<longleftrightarrow> q = p\<lparr>listeners := listeners p @ [l]\<rparr>"
  by (auto simp: addEventListener_def)

lemma attach_Done:
  "attach r l p = Done q \<Longrightarrow> \<exists>i. q = p\<lparr>listeners := listeners p @ [l i]\<rparr>"
  by (auto simp: attach_def addEventListener_def split: option.splits)

lemma wiring_steps:
  assumes "\<And>s. s \<in> set ss \<Longrightarrow> (\<exists>l. s = addEventListener l) \<or> (\<exists>r l. s = attach r l)"
    and "seq ss p = Done q"
  shows "dom q = dom p \<and> set (listeners p) \<subseteq> set (listeners q)"
proof (rule seq_rel [where R = "\<lambda>p q. dom q = dom p \<and> set (listeners p) \<subseteq> set (listeners q)"
      and ss = ss, OF _ _ _ assms(2)])
  fix s p q assume "s \<in> set ss" and run: "s p = Done q"
  then consider l where "s = addEventListener l" | r l where "s = attach r l"
    using assms(1) by blast
  then show "dom q = dom p \<and> set (listeners p) \<subseteq> set (listeners q)"
  proof cases
    case 1
    then show ?thesis using run by (auto simp: addEventListener_Done)
  next
    case 2
    then show ?thesis using run by (auto dest!: attach_Done)
  qed
qed auto

lemma initEventListeners_Done:
  assumes "initEventListeners e p = Done q"
  shows "dom q = dom p \<and> OnScroll \<in> set (listeners q)"
proof -
  let ?rest = "[attach (menuToggle e) OnToggleClick, addEventListener OnDocumentClick]
          @ map (\<lambda>l. addEventListener (OnAnchorClick l)) (querySelectorAll (dom p) (anchor_link (dom p)))
          @ map (\<lambda>l. addEventListener (OnMenuLinkClick l)) (mobileMenuLinks e)
          @ [addEventListener OnResize, addEventListener OnKeydownMenu]"
  have "seq (addEventListener OnScroll # ?rest) p = Done q"
    using assms by (simp add: initEventListeners_def)
  then have rest: "seq ?rest (p\<lparr>listeners := listeners p @ [OnScroll]\<rparr>) = Done q"
    by (simp add: addEventListener_def)
  have "dom q = dom (p\<lparr>listeners := listeners p @ [OnScroll]\<rparr>)
      \<and> set (listeners (p\<lparr>listeners := listeners p @ [OnScroll]\<rparr>)) \<subseteq> set (listeners q)"
    by (rule wiring_steps [OF _ rest]) auto
  then show ?thesis by auto
qed

lemma initFormValidation_Done:
  assumes "initFormValidation p = Done q"
  shows "dom q = dom p \<and> set (listeners p) \<subseteq> set (listeners q)"
proof (cases "querySelector (dom p) (has_tag (dom p) ''form'')")
  case None
  then show ?thesis using assms by (simp add: initFormValidation_def)
next
  case (Some f)
  then have "seq (addEventListener (OnValidationSubmit f) #
               concat (map (\<lambda>i. [addEventListener (OnBlur i), addEventListener (OnInput i)])
                         (querySelectorAll (dom p) (field_of (dom p) f)))) p = Done q"
    using assms by (simp add: initFormValidation_def)
  then show ?thesis by (rule wiring_steps [rotated]) auto
qed

lemma initContactForm_Done:
  assumes "initContactForm p = Done q"
  shows "dom q = dom p \<and> set (listeners p) \<subseteq> set (listeners q)"
  using assms
  by (auto simp: initContactForm_def Let_def addEventListener_def split: option.splits)

lemma initParallax_Done:
  assumes "initParallax p = Done q"
  shows "dom q = dom p \<and> set (listeners p) \<subseteq> set (listeners q)"
  using assms
  by (auto simp: initParallax_def addEventListener_def split: option.splits if_splits)

lemma foldl_add_class_other:
  assumes "c \<noteq> c'"
  shows "has_class (foldl (\<lambda>d el. upd el (classList_add c') d) d ls) c j = has_class d c j"
  using assms by (induction ls arbitrary: d) auto

lemma initScrollAnimations_Done:
  assumes "initScrollAnimations e p = Done q" and "c \<noteq> ''visible''"
  shows "has_class (dom q) c j = has_class (dom p) c j \<and> listeners q = listeners p"
  using assms
  by (auto simp: initScrollAnimations_def foldl_add_class_other split: if_splits)

lemma init_Done:
  assumes "init e p = Done p'" and "c \<noteq> ''visible''"
  shows "\<exists>nb. navbar e = Some nb
     \<and> has_class (dom p') c j =
         has_class (upd nb (if scrollY p > 100 then classList_add ''scrolled''
                            else classList_remove ''scrolled'') (dom p)) c j
     \<and> OnScroll \<in> set (listeners p')"
proof -
  from assms(1) obtain p1 p2 p3 p4 p5 p6 p7 where
    s1: "handleNavbarScroll e p = Done p1" and s2: "initScrollAnimations e p1 = Done p2"
    and s3: "initEventListeners e p2 = Done p3" and s4: "initFormValidation p3 = Done p4"
    and s5: "initContactForm p4 = Done p5" and s6: "initParallax p5 = Done p6"
    and s7: "console_log (''%c'' @ [CHR 0xE2, CHR 0x9C, CHR 0x88, CHR 0xEF, CHR 0xB8, CHR 0x8F]
                       @ '' Sophie Travel Designer'') p6 = Done p7"
    and s8: "console_log ''%cViaggi su misura, pensati per te'' p7 = Done p'"
    unfolding init_def by (auto simp: seq_Cons_Done simp del: seq.simps(2))
  obtain nb where nb: "navbar e = Some nb" using handleNavbarScroll_Done [OF s1] by blast
  have d1: "dom p1 = upd nb (if scrollY p > 100 then classList_add ''scrolled''
                            else classList_remove ''scrolled'') (dom p)"
  proof -
    have "p1 = p\<lparr>dom := upd nb (if scrollY p > 100 then classList_add ''scrolled''
                            else classList_remove ''scrolled'') (dom p)\<rparr>"
      using s1 handleNavbarScroll_Some [OF nb, of p] by simp
    then show ?thesis by simp
  qed
  have d6: "dom p6 = dom p2" and l6: "OnScroll \<in> set (listeners p6)"
    using initEventListeners_Done [OF s3] initFormValidation_Done [OF s4]
      initContactForm_Done [OF s5] initParallax_Done [OF s6]
    by (simp, blast)
  have "dom p' = dom p6" "listeners p' = listeners p6"
    using s7 s8 by (auto simp: console_log_def)
  then have "dom p' = dom p2" "OnScroll \<in> set (listeners p')"
    using d6 l6 by simp_all
  then show ?thesis
    using nb d1 initScrollAnimations_Done [OF s2 assms(2), of j] by simp
qed

lemma frame_scrolled_rule [simp]:
  "frame ((if b then classList_add c else classList_remove c) n) = frame n"
  "attrs ((if b then classList_add c else classList_remove c) n) = attrs n"
  by simp_all

lemma scroll_tick:
  assumes nb: "navbar e = Some nb" and len: "nb < length (dom q)"
    and reg: "OnScroll \<in> set (listeners q)" and free: "\<not> inThrottle q ScrollHandler"
  shows "\<exists>q'. window_scroll e y q = Done q'
     \<and> (has_class (dom q') ''scrolled'' nb \<longleftrightarrow> y > 100)
     \<and> (\<forall>l \<in> set (querySelectorAll (dom q) (navbar_link (dom q))).
           has_class (dom q') ''text-secondary'' l \<longleftrightarrow>
             getAttribute (dom q ! l) ''href''
               = Some (''#'' @ current_section (dom q)
                  (js_add (js_add y (of_int (offsetHeight (dom q ! nb)))) 100)))
     \<and> (\<forall>j. j \<notin> set (querySelectorAll (dom q) (navbar_link (dom q))) \<longrightarrow>
           has_class (dom q') ''text-secondary'' j = has_class (dom q) ''text-secondary'' j)
     \<and> inThrottle q' ScrollHandler
     \<and> timers q' = timers q @ [(clock q + 100, ThrottleReset ScrollHandler)]"
proof -
  let ?rule = "if y > 100 then classList_add ''scrolled'' else classList_remove ''scrolled''"
  let ?d1 = "upd nb ?rule (dom q)"
  let ?cur = "current_section (dom q) (js_add (js_add y (of_int (offsetHeight (dom q ! nb)))) 100)"
  let ?links = "querySelectorAll (dom q) (navbar_link (dom q))"
  let ?d2 = "foldl (\<lambda>d' l. upd l (link_step ?cur) d') ?d1 ?links"
  have fr: "map frame ?d1 = map frame (dom q)" and at: "map attrs ?d1 = map attrs (dom q)"
    by (rule map_upd_same, simp)+
  have h: "offsetHeight (?d1 ! nb) = offsetHeight (dom q ! nb)"
    using selectors_same(7) [OF fr at len] .
  have cur: "current_section ?d1 (js_add (js_add y (of_int (offsetHeight (?d1 ! nb)))) 100) = ?cur"
    using current_section_same [OF fr at] h by simp
  have links: "querySelectorAll ?d1 (navbar_link ?d1) = ?links"
    using navLinks_same [OF fr at] .
  let ?p1 = "q\<lparr>scrollY := y\<rparr>"
  have s1: "handleNavbarScroll e ?p1 = Done (?p1\<lparr>dom := ?d1\<rparr>)"
    using handleNavbarScroll_Some [OF nb, of ?p1] by simp
  have s2: "updateActiveNavLink e (?p1\<lparr>dom := ?d1\<rparr>) = Done (?p1\<lparr>dom := ?d2\<rparr>)"
    using updateActiveNavLink_Some [OF nb, of "?p1\<lparr>dom := ?d1\<rparr>"] cur links by simp
  let ?q' = "?p1\<lparr>dom := ?d2, inThrottle := (inThrottle q)(ScrollHandler := True),
      timers := timers q @ [(clock q + 100, ThrottleReset ScrollHandler)]\<rparr>"
  have run: "window_scroll e y q = Done ?q'"
    using reg free s1 s2
    by (simp add: window_scroll_def throttledScrollHandler_def throttle_def setTimeout_def)
  have scrolled: "has_class (dom ?q') ''scrolled'' nb \<longleftrightarrow> y > 100"
    using len by (simp add: foldl_link_step_other)
  have marked: "has_class (dom ?q') ''text-secondary'' l \<longleftrightarrow>
      getAttribute (dom q ! l) ''href'' = Some (''#'' @ ?cur)" if "l \<in> set ?links" for l
  proof -
    have l: "l < length (dom q)" using that by (simp add: set_querySelectorAll)
    then have "l < length ?d1" by simp
    from foldl_link_step_link [OF that this, of ?cur] selectors_same(2) [OF fr at l]
    show ?thesis by simp
  qed
  have others: "has_class (dom ?q') ''text-secondary'' j = has_class (dom q) ''text-secondary'' j"
    if "j \<notin> set ?links" for j
    using that by (simp add: foldl_link_step_other)
  show ?thesis
    using run scrolled marked others by (intro exI [of _ ?q']) simp
qed

lemma scroll_within_throttle:
  assumes "inThrottle r ScrollHandler"
  shows "window_scroll e y r = Done (r\<lparr>scrollY := y\<rparr>)"
  using assms by (simp add: window_scroll_def throttledScrollHandler_def throttle_def Let_def)

text \<open>
  Claim C9, as amended. At page load \<^verbatim>\<open>init\<close> runs the navbar part only: the navbar
  is marked \<^verbatim>\<open>scrolled\<close> exactly when the offset exceeds 100 px, no link changes its
  active mark, and the throttled scroll listener is registered. A scroll event outside
  the throttle window runs both parts: the navbar rule, and the links below
  \<^verbatim>\<open>#navbar\<close> are marked active exactly when their \<^verbatim>\<open>href\<close> is \<^verbatim>\<open>#\<close> followed by the id of
  the last section whose span holds the scroll position (the empty id when no section
  does); all other elements keep their mark. The scroll position is the sum of the
  offset, the height of the navbar and 100 px as the script computes it: two additions
  of doubles, each rounded to the nearest double. The handler then closes the throttle
  for 100 ms, and a scroll event inside that window changes nothing but the offset.
\<close>

theorem scroll_chrome_at_load_and_on_scroll:
  assumes "init e p = Done p'"
    and "navbar e = Some nb" and "nb < length (dom p)"
    and "OnScroll \<in> set (listeners q)" and "\<not> inThrottle q ScrollHandler"
    and "nb < length (dom q)"
    and "inThrottle r ScrollHandler"
    and "s \<in> set (querySelectorAll d (section_with_id d))" and "in_span d pos s"
    and "getAttribute (d ! s) ''id'' = Some x"
    and "\<forall>z \<in> set (querySelectorAll d (section_with_id d)). s < z \<longrightarrow> \<not> in_span d pos z"
  shows "(has_class (dom p') ''scrolled'' nb \<longleftrightarrow> scrollY p > 100)
       \<and> (\<forall>j. has_class (dom p') ''text-secondary'' j = has_class (dom p) ''text-secondary'' j)
       \<and> OnScroll \<in> set (listeners p')
       \<and> (\<exists>q'. window_scroll e y q = Done q'
             \<and> (has_class (dom q') ''scrolled'' nb \<longleftrightarrow> y > 100)
             \<and> (\<forall>l \<in> set (querySelectorAll (dom q) (navbar_link (dom q))).
                   has_class (dom q') ''text-secondary'' l \<longleftrightarrow>
                     getAttribute (dom q ! l) ''href''
                       = Some (''#'' @ current_section (dom q)
                  (js_add (js_add y (of_int (offsetHeight (dom q ! nb)))) 100)))
             \<and> (\<forall>j. j \<notin> set (querySelectorAll (dom q) (navbar_link (dom q))) \<longrightarrow>
                   has_class (dom q') ''text-secondary'' j = has_class (dom q) ''text-secondary'' j)
             \<and> inThrottle q' ScrollHandler
             \<and> timers q' = timers q @ [(clock q + 100, ThrottleReset ScrollHandler)])
       \<and> window_scroll e y r = Done (r\<lparr>scrollY := y\<rparr>)
       \<and> current_section d pos = x"
proof -
  have a: "has_class (dom p') ''scrolled'' nb \<longleftrightarrow> scrollY p > 100"
    using init_Done [OF assms(1), of "''scrolled''" nb] assms(2,3) by simp
  have b: "has_class (dom p') ''text-secondary'' j = has_class (dom p) ''text-secondary'' j" for j
    using init_Done [OF assms(1), of "''text-secondary''" j] assms(2) by auto
  have c: "OnScroll \<in> set (listeners p')"
    using init_Done [OF assms(1), of "''scrolled''" nb] by blast
  show ?thesis
    using a b c scroll_tick [OF assms(2,6,4,5), of y] scroll_within_throttle [OF assms(7), of e y]
      current_section_last [OF assms(8-11)]
    by simp
qed

theorem scroll_chrome_at_load_and_on_scroll_witness:
  "is_done (init menu_env menu_page)
   \<and> scrollY menu_page > 100
   \<and> has_class (dom (state_of (init menu_env menu_page))) ''scrolled'' 1
   \<and> OnScroll \<in> set (listeners (state_of (init menu_env menu_page)))
   \<and> js_add (js_add 500 64) 100 = 664
   \<and> in_span (dom menu_page) 664 8
   \<and> current_section (dom menu_page) 664 = ''about''
   \<and> (\<exists>q'. window_scroll menu_env 500 (state_of (init menu_env menu_page)) = Done q'
          \<and> has_class (dom q') ''scrolled'' 1 \<and> inThrottle q' ScrollHandler)"
proof -
  let ?p' = "state_of (init menu_env menu_page)"
  let ?r = "state_of (window_scroll menu_env 500 ?p')"
  have d: "is_done (init menu_env menu_page)" by code_simp
  then have h1: "init menu_env menu_page = Done ?p'" by (rule is_done_state_of)
  have h2: "navbar menu_env = Some 1" by (simp add: menu_env_def)
  have h3: "1 < length (dom menu_page)" by code_simp
  have h4: "OnScroll \<in> set (listeners ?p')" by code_simp
  have h5: "\<not> inThrottle ?p' ScrollHandler" by code_simp
  have h6: "1 < length (dom ?p')" by code_simp
  have h7: "inThrottle ?r ScrollHandler" by code_simp
  have h8: "8 \<in> set (querySelectorAll (dom menu_page) (section_with_id (dom menu_page)))"
    by code_simp
  have h9: "in_span (dom menu_page) 664 8" by code_simp
  have h10: "getAttribute (dom menu_page ! 8) ''id'' = Some ''about''" by code_simp
  have h11: "\<forall>z \<in> set (querySelectorAll (dom menu_page) (section_with_id (dom menu_page))).
      8 < z \<longrightarrow> \<not> in_span (dom menu_page) 664 z"
    by code_simp
  have big: "scrollY menu_page > 100" by code_simp
  have pos: "js_add (js_add 500 64) 100 = 664" by code_simp
  from scroll_chrome_at_load_and_on_scroll [OF h1 h2 h3 h4 h5 h6 h7 h8 h9 h10 h11, of 500] d big h9 pos
  show ?thesis by auto
qed

theorem active_link_not_marked_at_load:
  "scrollY menu_page = 500
   \<and> is_done (init menu_env menu_page)
   \<and> has_class (dom (state_of (init menu_env menu_page))) ''scrolled'' 1
   \<and> \<not> has_class (dom (state_of (init menu_env menu_page))) ''text-secondary'' 6
   \<and> is_done (updateActiveNavLink menu_env menu_page)
   \<and> has_class (dom (state_of (updateActiveNavLink menu_env menu_page))) ''text-secondary'' 6"
  by code_simp

text \<open>
  The rounding of the two additions shows next to a section boundary. At an offset of
  236 - 2^(-45) px the exact sum with the navbar height of 64 px and 100 px is below
  400 px, where the section starts; the script computes 400 and marks the links of the
  section.
\<close>

lemma scroll_position_rounded:
  "js_add (js_add (236 - 1 / 2 ^ 45) 64) 100 = 400
   \<and> (236 - 1 / 2 ^ 45 :: real) + 64 + 100 < 400
   \<and> has_class (dom (state_of (window_scroll menu_env (236 - 1 / 2 ^ 45)
                                 (state_of (init menu_env menu_page))))) ''text-secondary'' 6"
  by code_simp

subsection \<open>FAQ accordion\<close>

lemma closest_Some: "closest d sel i = Some a \<Longrightarrow> sel a \<and> a \<le> i"
proof (induction i rule: less_induct)
  case (less i)
  show ?case
  proof (cases "sel i")
    case True
    then show ?thesis using less.prems by (simp add: closest.simps [of d sel i])
  next
    case False
    then obtain q where q: "parent (d ! i) = Some q" "q < i" "closest d sel q = Some a"
      using less.prems
      by (auto simp: closest.simps [of d sel i] split: option.splits if_splits)
    from less.IH [OF q(2,3)] q(2) show ?thesis by simp
  qed
qed

lemma querySelector_cong:
  assumes "map frame d' = map frame d" and "\<And>i. i < length d \<Longrightarrow> sel' i = sel i"
  shows "querySelector d' sel' = querySelector d sel"
  unfolding querySelector_def
  using assms isConnected_frame [OF assms(1)] same_map_length [OF assms(1)]
  by (auto intro: find_cong)

lemma querySelector_Some: "querySelector d sel = Some i \<Longrightarrow> i < length d \<and> sel i"
  by (auto simp: querySelector_def find_Some_iff)

lemma faq_later_refl: "faq_later d d"
  by (simp add: faq_later_def)

lemma faq_later_trans:
  assumes "faq_later d d'" and "faq_later d' d''"
  shows "faq_later d d''"
  unfolding faq_later_def
proof (intro conjI allI)
  show "map frame d'' = map frame d" using assms by (simp add: faq_later_def)
next
  fix i c
  show "c \<noteq> ''open'' \<and> c \<noteq> ''hidden'' \<longrightarrow> has_class d'' c i = has_class d c i"
    using assms by (simp add: faq_later_def)
  show "has_class d'' ''open'' i \<longrightarrow> has_class d ''open'' i"
    using assms by (simp add: faq_later_def)
  show "has_class d ''hidden'' i \<longrightarrow> has_class d'' ''hidden'' i"
    using assms by (simp add: faq_later_def)
qed

lemma faq_later_remove_open: "faq_later d (upd i (classList_remove ''open'') d)"
proof -
  have "map frame (upd i (classList_remove ''open'') d) = map frame d"
    by (rule map_upd_same) simp
  then show ?thesis by (simp add: faq_later_def)
qed

lemma faq_later_add_hidden: "faq_later d (upd i (classList_add ''hidden'') d)"
proof -
  have "map frame (upd i (classList_add ''hidden'') d) = map frame d"
    by (rule map_upd_same) simp
  then show ?thesis by (simp add: faq_later_def)
qed

lemma faq_later_length: "faq_later d d' \<Longrightarrow> length d' = length d"
  by (auto simp: faq_later_def dest: same_map_length)

lemma faq_content_same:
  assumes "faq_later d d'"
  shows "faq_content_of d' item = faq_content_of d item"
  unfolding faq_content_of_def
proof (rule querySelector_cong)
  show "map frame d' = map frame d" using assms by (simp add: faq_later_def)
  fix i assume "i < length d"
  then have "is_descendant d' item i = is_descendant d item i"
    using assms is_descendant_frame [of d' d i item] by (simp add: faq_later_def)
  moreover have "has_class d' ''faq-content'' i = has_class d ''faq-content'' i"
    using assms by (simp add: faq_later_def)
  ultimately show "(is_descendant d' item i \<and> has_class d' ''faq-content'' i)
      = (is_descendant d item i \<and> has_class d ''faq-content'' i)" by simp
qed

lemma close_other_step:
  assumes "faq_later d (dom r)" and "x \<noteq> faqItem" and "faq_content_of d x = Some c"
  shows "close_other faqItem x r =
     Done (r\<lparr>dom := upd c (classList_add ''hidden'') (upd x (classList_remove ''open'') (dom r))\<rparr>)"
proof -
  have "faq_later d (upd x (classList_remove ''open'') (dom r))"
    using assms(1) faq_later_remove_open faq_later_trans by blast
  then have "faq_content_of (upd x (classList_remove ''open'') (dom r)) x = Some c"
    using assms(3) by (simp add: faq_content_same)
  then show ?thesis using assms(2) by (simp add: close_other_def write_el_def)
qed

lemma close_others_loop:
  assumes "faq_later d (dom r)"
    and "\<forall>x \<in> set xs. x \<noteq> faqItem \<longrightarrow> x < length d \<and> faq_content_of d x \<noteq> None"
  shows "\<exists>r'. seq (map (close_other faqItem) xs) r = Done r'
     \<and> faq_later (dom r) (dom r')
     \<and> has_class (dom r') ''open'' faqItem = has_class (dom r) ''open'' faqItem
     \<and> (\<forall>x \<in> set xs. x \<noteq> faqItem \<longrightarrow>
           \<not> has_class (dom r') ''open'' x
           \<and> (\<forall>c. faq_content_of d x = Some c \<longrightarrow> has_class (dom r') ''hidden'' c))"
  using assms
proof (induction xs arbitrary: r)
  case Nil
  then show ?case by (simp add: faq_later_refl)
next
  case (Cons x xs)
  show ?case
  proof (cases "x = faqItem")
    case True
    then have step: "close_other faqItem x r = Done r" by (simp add: close_other_def)
    from Cons.IH [OF Cons.prems(1)] Cons.prems(2) obtain r' where
      r': "seq (map (close_other faqItem) xs) r = Done r'" "faq_later (dom r) (dom r')"
      "has_class (dom r') ''open'' faqItem = has_class (dom r) ''open'' faqItem"
      "\<forall>x \<in> set xs. x \<noteq> faqItem \<longrightarrow> \<not> has_class (dom r') ''open'' x
           \<and> (\<forall>c. faq_content_of d x = Some c \<longrightarrow> has_class (dom r') ''hidden'' c)"
      by auto
    show ?thesis using step r' True by (intro exI [of _ r']) simp
  next
    case False
    then obtain c where c: "faq_content_of d x = Some c" and x: "x < length d"
      using Cons.prems(2) by auto
    let ?r1 = "r\<lparr>dom := upd c (classList_add ''hidden'') (upd x (classList_remove ''open'') (dom r))\<rparr>"
    have step: "close_other faqItem x r = Done ?r1"
      using close_other_step [OF Cons.prems(1) False c] .
    have l1: "faq_later (dom r) (dom ?r1)"
      using faq_later_trans [OF faq_later_remove_open [of "dom r" x]
        faq_later_add_hidden [of "upd x (classList_remove ''open'') (dom r)" c]]
      by simp
    have l0: "faq_later d (dom ?r1)" using Cons.prems(1) l1 faq_later_trans by blast
    have len: "length (dom r) = length d" using Cons.prems(1) by (rule faq_later_length)
    have clen: "c < length d" using c querySelector_Some by (auto simp: faq_content_of_def)
    have x1: "\<not> has_class (dom ?r1) ''open'' x" using x len by simp
    have c1: "has_class (dom ?r1) ''hidden'' c" using clen len by simp
    have f1: "has_class (dom ?r1) ''open'' faqItem = has_class (dom r) ''open'' faqItem"
      using False by auto
    from Cons.IH [OF l0] Cons.prems(2) obtain r' where
      r': "seq (map (close_other faqItem) xs) ?r1 = Done r'" "faq_later (dom ?r1) (dom r')"
      "has_class (dom r') ''open'' faqItem = has_class (dom ?r1) ''open'' faqItem"
      "\<forall>x \<in> set xs. x \<noteq> faqItem \<longrightarrow> \<not> has_class (dom r') ''open'' x
           \<and> (\<forall>c. faq_content_of d x = Some c \<longrightarrow> has_class (dom r') ''hidden'' c)"
      by auto
    have x': "\<not> has_class (dom r') ''open'' x" "has_class (dom r') ''hidden'' c"
      using r'(2) x1 c1 by (auto simp: faq_later_def)
    have "faq_later (dom r) (dom r')" using l1 r'(2) faq_later_trans by blast
    then show ?thesis
      using step r' x' c f1 by (intro exI [of _ r']) auto
  qed
qed


lemma seq_append:
  "seq (xs @ ys) p = (case seq xs p of Done p' \<Rightarrow> seq ys p' | Threw e p' \<Rightarrow> Threw e p')"
  by (induction xs arbitrary: p) (auto split: outcome.splits)

text \<open>
  Claim C10. Let the button lie in a FAQ item that has a content element, and let every
  open item have one. Then \<^verbatim>\<open>toggleFaq\<close> ends normally, and afterwards no item other
  than the activated one is open, so at most one item is open. The activated item is
  open exactly when it was closed before, and its content is hidden exactly when the
  item was open before. The content of every other item that was open has been marked
  hidden (unless it is the very element that serves as content of the activated item).
\<close>

theorem toggleFaq_at_most_one_open:
  assumes "button < length (dom p)"
    and "closest (dom p) (has_class (dom p) ''faq-item'') button = Some faqItem"
    and "faq_content_of (dom p) faqItem = Some content"
    and "\<forall>x \<in> set (querySelectorAll (dom p)
                     (\<lambda>i. has_class (dom p) ''faq-item'' i \<and> has_class (dom p) ''open'' i)).
           faq_content_of (dom p) x \<noteq> None"
  shows "\<exists>q. toggleFaq button p = Done q
     \<and> set (querySelectorAll (dom q)
              (\<lambda>i. has_class (dom q) ''faq-item'' i \<and> has_class (dom q) ''open'' i)) \<subseteq> {faqItem}
     \<and> length (querySelectorAll (dom q)
              (\<lambda>i. has_class (dom q) ''faq-item'' i \<and> has_class (dom q) ''open'' i)) \<le> 1
     \<and> (has_class (dom q) ''open'' faqItem \<longleftrightarrow> \<not> has_class (dom p) ''open'' faqItem)
     \<and> (has_class (dom q) ''hidden'' content \<longleftrightarrow> has_class (dom p) ''open'' faqItem)
     \<and> (\<forall>x \<in> set (querySelectorAll (dom p)
                     (\<lambda>i. has_class (dom p) ''faq-item'' i \<and> has_class (dom p) ''open'' i)).
           \<forall>c. x \<noteq> faqItem \<and> faq_content_of (dom p) x = Some c \<and> c \<noteq> content
               \<longrightarrow> has_class (dom q) ''hidden'' c)"
proof -
  let ?d = "dom p"
  let ?xs = "querySelectorAll ?d (\<lambda>i. has_class ?d ''faq-item'' i \<and> has_class ?d ''open'' i)"
  let ?isOpen = "has_class ?d ''open'' faqItem"
  have item: "faqItem < length ?d"
    using closest_Some [OF assms(2)] assms(1) by simp
  have cont: "content < length ?d"
    using assms(3) querySelector_Some by (auto simp: faq_content_of_def)
  have pre: "\<forall>x \<in> set ?xs. x \<noteq> faqItem \<longrightarrow> x < length ?d \<and> faq_content_of ?d x \<noteq> None"
    using assms(4) by (simp add: set_querySelectorAll)
  from close_others_loop [OF faq_later_refl pre] obtain r where
    loop: "seq (map (close_other faqItem) ?xs) p = Done r"
    and later: "faq_later ?d (dom r)"
    and same: "has_class (dom r) ''open'' faqItem = ?isOpen"
    and closed: "\<forall>x \<in> set ?xs. x \<noteq> faqItem \<longrightarrow> \<not> has_class (dom r) ''open'' x
           \<and> (\<forall>c. faq_content_of ?d x = Some c \<longrightarrow> has_class (dom r) ''hidden'' c)"
    by blast
  have len: "length (dom r) = length ?d" using later by (rule faq_later_length)
  let ?dq = "if ?isOpen
      then upd content (classList_add ''hidden'') (upd faqItem (classList_remove ''open'') (dom r))
      else upd content (classList_remove ''hidden'') (upd faqItem (classList_add ''open'') (dom r))"
  let ?q = "r\<lparr>dom := ?dq\<rparr>"
  have run: "toggleFaq button p = Done ?q"
    using assms(2,3) loop
    by (simp add: toggleFaq_def Let_def seq_append write_el_def has_class_def)
  have others_open: "has_class ?dq ''open'' i \<longrightarrow> has_class (dom r) ''open'' i" if "i \<noteq> faqItem" for i
    using that by simp
  have kind: "has_class ?dq ''faq-item'' i = has_class ?d ''faq-item'' i" for i
    using later by (simp add: faq_later_def)
  have only: "set (querySelectorAll ?dq (\<lambda>i. has_class ?dq ''faq-item'' i \<and> has_class ?dq ''open'' i))
      \<subseteq> {faqItem}"
  proof
    fix i assume i: "i \<in> set (querySelectorAll ?dq (\<lambda>i. has_class ?dq ''faq-item'' i \<and> has_class ?dq ''open'' i))"
    show "i \<in> {faqItem}"
    proof (rule ccontr)
      assume "i \<notin> {faqItem}"
      then have ne: "i \<noteq> faqItem" by simp
      have range: "i < length ?d" and it: "has_class ?d ''faq-item'' i" and op: "has_class ?dq ''open'' i"
        using i len kind [of i] by (simp_all add: set_querySelectorAll split: if_splits)
      have "map frame ?dq = map frame (dom r)"
        by (simp add: map_upd_same)
      then have "map frame ?dq = map frame ?d"
        using later by (simp add: faq_later_def)
      from isConnected_frame [OF this range] i
      have conn: "isConnected (?d ! i)" by (simp add: set_querySelectorAll)
      have "has_class (dom r) ''open'' i" using others_open [OF ne] op by blast
      then have "has_class ?d ''open'' i" using later by (simp add: faq_later_def)
      then have "i \<in> set ?xs" using range it conn by (simp add: set_querySelectorAll)
      then have "\<not> has_class (dom r) ''open'' i" using closed ne by blast
      then show False using \<open>has_class (dom r) ''open'' i\<close> by simp
    qed
  qed
  have count: "length (querySelectorAll ?dq (\<lambda>i. has_class ?dq ''faq-item'' i \<and> has_class ?dq ''open'' i)) \<le> 1"
  proof -
    have "card (set (querySelectorAll ?dq (\<lambda>i. has_class ?dq ''faq-item'' i \<and> has_class ?dq ''open'' i)))
        \<le> card {faqItem}"
      using only by (intro card_mono) simp_all
    then show ?thesis by (simp add: distinct_card)
  qed
  have toggled: "has_class ?dq ''open'' faqItem \<longleftrightarrow> \<not> ?isOpen"
    using item len same by simp
  have hid: "has_class ?dq ''hidden'' content \<longleftrightarrow> ?isOpen"
    using cont len by simp
  have rest: "has_class ?dq ''hidden'' c"
    if "x \<in> set ?xs" "x \<noteq> faqItem" "faq_content_of ?d x = Some c" "c \<noteq> content" for x c
  proof -
    have "has_class (dom r) ''hidden'' c" using closed that by blast
    then show ?thesis using that(4) by simp
  qed
  show ?thesis
  proof (intro exI [of _ ?q] conjI)
    show "toggleFaq button p = Done ?q" by (rule run)
    show "set (querySelectorAll (dom ?q)
              (\<lambda>i. has_class (dom ?q) ''faq-item'' i \<and> has_class (dom ?q) ''open'' i)) \<subseteq> {faqItem}"
      using only by simp
    show "length (querySelectorAll (dom ?q)
              (\<lambda>i. has_class (dom ?q) ''faq-item'' i \<and> has_class (dom ?q) ''open'' i)) \<le> 1"
      using count by simp
    show "has_class (dom ?q) ''open'' faqItem \<longleftrightarrow> \<not> ?isOpen"
      using toggled by simp
    show "has_class (dom ?q) ''hidden'' content \<longleftrightarrow> ?isOpen"
      using hid by simp
    show "\<forall>x \<in> set ?xs. \<forall>c. x \<noteq> faqItem \<and> faq_content_of ?d x = Some c \<and> c \<noteq> content
               \<longrightarrow> has_class (dom ?q) ''hidden'' c"
    proof (intro ballI allI impI)
      fix x c assume "x \<in> set ?xs" and "x \<noteq> faqItem \<and> faq_content_of ?d x = Some c \<and> c \<noteq> content"
      then have "has_class ?dq ''hidden'' c" using rest by blast
      then show "has_class (dom ?q) ''hidden'' c" by simp
    qed
  qed
qed



theorem toggleFaq_at_most_one_open_witness:
  "closest (dom faq_page) (has_class (dom faq_page) ''faq-item'') 8 = Some 7
   \<and> faq_content_of (dom faq_page) 7 = Some 9
   \<and> querySelectorAll (dom faq_page)
         (\<lambda>i. has_class (dom faq_page) ''faq-item'' i \<and> has_class (dom faq_page) ''open'' i) = [1, 4]
   \<and> (\<exists>q. toggleFaq 8 faq_page = Done q
          \<and> set (querySelectorAll (dom q)
                 (\<lambda>i. has_class (dom q) ''faq-item'' i \<and> has_class (dom q) ''open'' i)) \<subseteq> {7}
          \<and> has_class (dom q) ''open'' 7 \<and> \<not> has_class (dom q) ''hidden'' 9)"
proof -
  have h1: "8 < length (dom faq_page)" by code_simp
  have h2: "closest (dom faq_page) (has_class (dom faq_page) ''faq-item'') 8 = Some 7"
    by code_simp
  have h3: "faq_content_of (dom faq_page) 7 = Some 9" by code_simp
  have h4: "\<forall>x \<in> set (querySelectorAll (dom faq_page)
                     (\<lambda>i. has_class (dom faq_page) ''faq-item'' i \<and> has_class (dom faq_page) ''open'' i)).
           faq_content_of (dom faq_page) x \<noteq> None"
    by code_simp
  have h5: "querySelectorAll (dom faq_page)
         (\<lambda>i. has_class (dom faq_page) ''faq-item'' i \<and> has_class (dom faq_page) ''open'' i) = [1, 4]"
    by code_simp
  have h6: "\<not> has_class (dom faq_page) ''open'' 7" by code_simp
  from toggleFaq_at_most_one_open [OF h1 h2 h3 h4] h2 h3 h5 h6
  show ?thesis by auto
qed

subsection \<open>Contact form: the frozen state\<close>

lemma has_tag_upd:
  assumes "\<And>n. frame (f n) = frame n"
  shows "has_tag (upd i f d) t j = has_tag d t j"
proof -
  have "tag (f n) = tag n" for n using assms [of n] by (simp add: frame_def)
  then show ?thesis by (simp add: has_tag_def nth_upd)
qed

lemma fields_upd:
  assumes "\<And>n. frame (f n) = frame n"
  shows "querySelectorAll (upd i f d) (field_of (upd i f d) fm) = querySelectorAll d (field_of d fm)"
proof (rule querySelectorAll_cong)
  show fr: "map frame (upd i f d) = map frame d" by (rule map_upd_same) (rule assms)
  fix j assume j: "j < length d"
  show "field_of (upd i f d) fm j = field_of d fm j"
    using is_descendant_frame [OF fr j] by (simp add: field_of_def has_tag_upd [OF assms])
qed

lemma frozen_upd:
  assumes fz: "frozen c fs d"
    and fr: "\<And>n. frame (f n) = frame n"
    and btn: "i = submitBtn c \<Longrightarrow> ''hidden'' \<in> set (classes (d ! i)) \<Longrightarrow> ''hidden'' \<in> set (classes (f (d ! i)))"
    and suc: "i = fs \<Longrightarrow> ''hidden'' \<notin> set (classes (d ! i)) \<Longrightarrow> ''hidden'' \<notin> set (classes (f (d ! i)))"
    and dis: "disabled (d ! i) \<Longrightarrow> \<not> has_tag d ''button'' i \<Longrightarrow> disabled (f (d ! i))"
    and fld: "\<And>j. j \<in> set (querySelectorAll d (field_of d (form c))) \<Longrightarrow> \<not> has_tag d ''button'' j"
  shows "frozen c fs (upd i f d)"
proof -
  have a: "has_class (upd i f d) ''hidden'' (submitBtn c)"
    using fz btn by (auto simp: frozen_def has_class_def classList_contains_def nth_upd)
  have b: "\<not> has_class (upd i f d) ''hidden'' fs"
    using fz suc by (auto simp: frozen_def has_class_def classList_contains_def nth_upd)
  have "disabled (upd i f d ! j)" if "j \<in> set (querySelectorAll d (field_of d (form c)))" for j
  proof -
    have "disabled (d ! j)" using fz that by (simp add: frozen_def list_all_iff)
    then show ?thesis using dis fld [OF that] by (auto simp: nth_upd)
  qed
  then have "list_all (\<lambda>j. disabled (upd i f d ! j)) (querySelectorAll d (field_of d (form c)))"
    by (simp add: list_all_iff)
  then show ?thesis using a b by (simp add: frozen_def fields_upd [OF fr])
qed

lemma disabled_class_writes [simp]:
  "disabled (classList_add c n) = disabled n" "disabled (classList_remove c n) = disabled n"
  by (simp_all add: classList_add_def classList_remove_def)

lemma field_not_button:
  "j \<in> set (querySelectorAll d (field_of d fm)) \<Longrightarrow> \<not> has_tag d ''button'' j"
  by (auto simp: set_querySelectorAll field_of_def has_tag_def)

lemma button_timers_upd:
  assumes "\<And>n. frame (f n) = frame n" and "button_timers p"
  shows "button_timers (p\<lparr>dom := upd i f (dom p)\<rparr>)"
proof -
  have "timer_ok (upd i f (dom p)) cb = timer_ok (dom p) cb" for cb
    by (cases cb) (simp_all add: has_tag_upd [OF assms(1)])
  then show ?thesis using assms(2) by (simp add: button_timers_def)
qed

lemma form_inv_write:
  assumes inv: "form_inv c fs p"
    and fr: "\<And>n. frame (f n) = frame n"
    and btn: "i = submitBtn c \<Longrightarrow> ''hidden'' \<in> set (classes (dom p ! i)) \<Longrightarrow> ''hidden'' \<in> set (classes (f (dom p ! i)))"
    and suc: "i = fs \<Longrightarrow> ''hidden'' \<notin> set (classes (dom p ! i)) \<Longrightarrow> ''hidden'' \<notin> set (classes (f (dom p ! i)))"
    and dis: "disabled (dom p ! i) \<Longrightarrow> \<not> has_tag (dom p) ''button'' i \<Longrightarrow> disabled (f (dom p ! i))"
  shows "form_inv c fs (p\<lparr>dom := upd i f (dom p)\<rparr>)"
proof -
  have fz: "frozen c fs (dom p)" using inv by (simp add: form_inv_def)
  have "frozen c fs (upd i f (dom p))"
    by (rule frozen_upd [OF fz fr btn suc dis field_not_button])
  then show ?thesis
    using inv button_timers_upd [OF fr, of p i] by (simp add: form_inv_def has_tag_upd [OF fr])
qed

lemma frame_disabled [simp]: "frame (n\<lparr>disabled := x\<rparr>) = frame n"
  and frame_ownText [simp]: "frame (n\<lparr>ownText := y\<rparr>) = frame n"
  and frame_freeze [simp]: "frame (freeze_field n) = frame n"
  by (simp_all add: frame_def freeze_field_def classList_add_def)

lemma form_inv_add_class:
  assumes "form_inv c fs p" and "c' \<noteq> ''hidden'' \<or> r \<noteq> Some fs"
  shows "form_inv c fs (state_of (write_el r (classList_add c') p))"
proof (cases r)
  case None
  then show ?thesis using assms by (simp add: write_el_def)
next
  case (Some i)
  have "form_inv c fs (p\<lparr>dom := upd i (classList_add c') (dom p)\<rparr>)"
    using assms(2) Some by (intro form_inv_write [OF assms(1)]) auto
  then show ?thesis using Some by (simp add: write_el_def)
qed

lemma form_inv_remove_class:
  assumes "form_inv c fs p" and "c' \<noteq> ''hidden'' \<or> r \<noteq> Some (submitBtn c)"
  shows "form_inv c fs (state_of (write_el r (classList_remove c') p))"
proof (cases r)
  case None
  then show ?thesis using assms by (simp add: write_el_def)
next
  case (Some i)
  have "form_inv c fs (p\<lparr>dom := upd i (classList_remove c') (dom p)\<rparr>)"
    using assms(2) Some by (intro form_inv_write [OF assms(1)]) auto
  then show ?thesis using Some by (simp add: write_el_def)
qed

lemma form_inv_disable:
  assumes "form_inv c fs p"
  shows "form_inv c fs (state_of (write_el r (\<lambda>n. n\<lparr>disabled := True\<rparr>) p))"
proof (cases r)
  case None
  then show ?thesis using assms by (simp add: write_el_def)
next
  case (Some i)
  have "form_inv c fs (p\<lparr>dom := upd i (\<lambda>n. n\<lparr>disabled := True\<rparr>) (dom p)\<rparr>)"
    by (intro form_inv_write [OF assms(1)]) auto
  then show ?thesis using Some by (simp add: write_el_def)
qed

lemma form_inv_enable_button:
  assumes "form_inv c fs p" and "has_tag (dom p) ''button'' i"
  shows "form_inv c fs (state_of (write_el (Some i) (\<lambda>n. n\<lparr>disabled := False\<rparr>) p))"
proof -
  have "form_inv c fs (p\<lparr>dom := upd i (\<lambda>n. n\<lparr>disabled := False\<rparr>) (dom p)\<rparr>)"
    using assms(2) by (intro form_inv_write [OF assms(1)]) auto
  then show ?thesis by (simp add: write_el_def)
qed

text \<open>The setter of \<^verbatim>\<open>textContent\<close> takes elements out of the tree and out of the
  document, and puts none in.\<close>

lemma parent_set_textContent:
  "parent (set_textContent b s d ! j) = Some q \<Longrightarrow> parent (d ! j) = Some q"
  by (auto simp: set_textContent_def nth_upd nth_remove_children split: if_splits)

lemma isConnected_set_textContent:
  "isConnected (set_textContent b s d ! j) \<Longrightarrow> isConnected (d ! j)"
  by (auto simp: set_textContent_def nth_upd nth_remove_children split: if_splits)

lemma is_descendant_set_textContent:
  "is_descendant (set_textContent b s d) a i \<Longrightarrow> is_descendant d a i"
proof (induction i rule: less_induct)
  case (less i)
  from less.prems obtain q where q: "parent (set_textContent b s d ! i) = Some q" "q < i"
      "q = a \<or> is_descendant (set_textContent b s d) a q"
    by (auto simp: is_descendant.simps [of "set_textContent b s d" a i] split: option.splits if_splits)
  have "parent (d ! i) = Some q" using q(1) by (rule parent_set_textContent)
  moreover have "q = a \<or> is_descendant d a q" using q(2,3) less.IH by blast
  ultimately show ?case using q(2) by (simp add: is_descendant.simps [of d a i])
qed

lemma has_tag_set_textContent [simp]:
  "has_tag (set_textContent b s d) t j = has_tag d t j"
  by (simp add: has_tag_def)

lemma fields_set_textContent:
  "set (querySelectorAll (set_textContent b s d) (field_of (set_textContent b s d) fm))
     \<subseteq> set (querySelectorAll d (field_of d fm))"
  by (auto simp: set_querySelectorAll field_of_def
      dest: is_descendant_set_textContent isConnected_set_textContent)

lemma form_inv_set_textContent:
  assumes "form_inv c fs p"
  shows "form_inv c fs (p\<lparr>dom := set_textContent b s (dom p)\<rparr>)"
proof -
  have "disabled (set_textContent b s (dom p) ! j)"
    if "j \<in> set (querySelectorAll (set_textContent b s (dom p))
                   (field_of (set_textContent b s (dom p)) (form c)))" for j
  proof -
    have "j \<in> set (querySelectorAll (dom p) (field_of (dom p) (form c)))"
      using that fields_set_textContent by blast
    then show ?thesis using assms by (simp add: form_inv_def frozen_def list_all_iff)
  qed
  then have fz: "frozen c fs (set_textContent b s (dom p))"
    using assms by (simp add: form_inv_def frozen_def list_all_iff)
  have "timer_ok (set_textContent b s (dom p)) cb = timer_ok (dom p) cb" for cb
    by (cases cb) simp_all
  then have "button_timers (p\<lparr>dom := set_textContent b s (dom p)\<rparr>)"
    using assms by (simp add: form_inv_def button_timers_def)
  then show ?thesis using fz assms by (simp add: form_inv_def)
qed

lemma seq_state_of:
  assumes "\<And>s p. s \<in> set ss \<Longrightarrow> P p \<Longrightarrow> P (state_of (s p))" and "P p"
  shows "P (state_of (seq ss p))"
  using assms
proof (induction ss arbitrary: p)
  case Nil
  then show ?case by simp
next
  case (Cons s ss)
  have step: "P (state_of (s p))" using Cons.prems by simp
  show ?case
  proof (cases "s p")
    case (Done p')
    then have "P p'" using step by simp
    then have "P (state_of (seq ss p'))" using Cons.IH Cons.prems(1) by simp
    then show ?thesis using Done by simp
  next
    case (Threw e p')
    then show ?thesis using step by simp
  qed
qed

lemma form_inv_fields [simp]:
  "form_inv c fs (p\<lparr>defaultPrevented := x\<rparr>) = form_inv c fs p"
  "form_inv c fs (p\<lparr>alerts := y\<rparr>) = form_inv c fs p"
  "form_inv c fs (p\<lparr>clock := z\<rparr>) = form_inv c fs p"
  "form_inv c fs (p\<lparr>inThrottle := w\<rparr>) = form_inv c fs p"
  by (simp_all add: form_inv_def button_timers_def)

lemma contactSubmit_begin_inv:
  assumes "form_wired e c fs" and "form_inv c fs p"
  shows "form_inv c fs (state_of (contactSubmit_begin c p))"
  unfolding contactSubmit_begin_def
proof (rule seq_state_of [where P = "form_inv c fs", OF _ assms(2)])
  fix s q assume s: "s \<in> set [(\<lambda>q. Done (q\<lparr>defaultPrevented := True\<rparr>)),
          write_el (Some (submitBtn c)) (\<lambda>n. n\<lparr>disabled := True\<rparr>),
          write_el (btnText c) (classList_add ''hidden''),
          write_el (btnSpinner c) (classList_remove ''hidden'')]" and q: "form_inv c fs q"
  then consider "s = (\<lambda>q. Done (q\<lparr>defaultPrevented := True\<rparr>))"
    | "s = write_el (Some (submitBtn c)) (\<lambda>n. n\<lparr>disabled := True\<rparr>)"
    | "s = write_el (btnText c) (classList_add ''hidden'')"
    | "s = write_el (btnSpinner c) (classList_remove ''hidden'')" by auto
  then show "form_inv c fs (state_of (s q))"
  proof cases
    case 1 then show ?thesis using q by simp
  next
    case 2 then show ?thesis using q by (simp add: form_inv_disable)
  next
    case 3 then show ?thesis using q assms(1) by (simp add: form_inv_add_class form_wired_def)
  next
    case 4 then show ?thesis using q assms(1) by (simp add: form_inv_remove_class form_wired_def)
  qed
qed

lemma contact_catch_inv:
  assumes "form_wired e c fs" and "form_inv c fs p"
  shows "form_inv c fs (state_of (contact_catch c p))"
  unfolding contact_catch_def
proof (rule seq_state_of [where P = "form_inv c fs", OF _ assms(2)])
  fix s q assume s: "s \<in> set [write_el (btnSpinner c) (classList_add ''hidden''),
          write_el (btnText c) (classList_remove ''hidden''),
          write_el (Some (submitBtn c)) (\<lambda>n. n\<lparr>disabled := False\<rparr>),
          (\<lambda>q. Done (q\<lparr>alerts := alerts q @ [alert_text]\<rparr>))]" and q: "form_inv c fs q"
  then consider "s = write_el (btnSpinner c) (classList_add ''hidden'')"
    | "s = write_el (btnText c) (classList_remove ''hidden'')"
    | "s = write_el (Some (submitBtn c)) (\<lambda>n. n\<lparr>disabled := False\<rparr>)"
    | "s = (\<lambda>q. Done (q\<lparr>alerts := alerts q @ [alert_text]\<rparr>))" by auto
  then show "form_inv c fs (state_of (s q))"
  proof cases
    case 1 then show ?thesis using q assms(1) by (simp add: form_inv_add_class form_wired_def)
  next
    case 2 then show ?thesis using q assms(1) by (simp add: form_inv_remove_class form_wired_def)
  next
    case 3
    have "has_tag (dom q) ''button'' (submitBtn c)" using q by (simp add: form_inv_def)
    then show ?thesis using 3 q by (simp add: form_inv_enable_button)
  next
    case 4 then show ?thesis using q by simp
  qed
qed

lemma foldl_freeze_inv:
  assumes "form_inv c fs (p\<lparr>dom := d\<rparr>)"
  shows "form_inv c fs (p\<lparr>dom := foldl (\<lambda>d i. upd i freeze_field d) d xs\<rparr>)"
  using assms
proof (induction xs arbitrary: d)
  case Nil
  then show ?case by simp
next
  case (Cons x xs)
  have "form_inv c fs ((p\<lparr>dom := d\<rparr>)\<lparr>dom := upd x freeze_field (dom (p\<lparr>dom := d\<rparr>))\<rparr>)"
    by (rule form_inv_write [OF Cons.prems]) (auto simp: freeze_field_def)
  then have "form_inv c fs (p\<lparr>dom := upd x freeze_field d\<rparr>)" by simp
  from Cons.IH [OF this] show ?case by simp
qed

lemma contact_try_inv:
  assumes "form_wired e c fs" and "form_inv c fs p"
  shows "form_inv c fs (state_of (contact_try c r p))"
proof (cases r)
  case PostRejected
  then show ?thesis using assms by (simp add: contact_try_def)
next
  case (PostResponse ok)
  show ?thesis
  proof (cases ok)
    case False
    then show ?thesis using assms PostResponse by (simp add: contact_try_def)
  next
    case True
    have "form_inv c fs (state_of (seq [write_el (Some (submitBtn c)) (classList_add ''hidden''),
                 write_el (formSuccess c) (classList_remove ''hidden''),
                 (\<lambda>q. Done (q\<lparr>dom := foldl (\<lambda>d i. upd i freeze_field d) (dom q)
                                       (querySelectorAll (dom q) (field_of (dom q) (form c)))\<rparr>))] p))"
    proof (rule seq_state_of [where P = "form_inv c fs", OF _ assms(2)])
      fix s q assume s: "s \<in> set [write_el (Some (submitBtn c)) (classList_add ''hidden''),
                 write_el (formSuccess c) (classList_remove ''hidden''),
                 (\<lambda>q. Done (q\<lparr>dom := foldl (\<lambda>d i. upd i freeze_field d) (dom q)
                                       (querySelectorAll (dom q) (field_of (dom q) (form c)))\<rparr>))]"
        and q: "form_inv c fs q"
      then consider "s = write_el (Some (submitBtn c)) (classList_add ''hidden'')"
        | "s = write_el (formSuccess c) (classList_remove ''hidden'')"
        | "s = (\<lambda>q. Done (q\<lparr>dom := foldl (\<lambda>d i. upd i freeze_field d) (dom q)
                                       (querySelectorAll (dom q) (field_of (dom q) (form c)))\<rparr>))"
        by auto
      then show "form_inv c fs (state_of (s q))"
      proof cases
        case 1 then show ?thesis using q assms(1) by (simp add: form_inv_add_class form_wired_def)
      next
        case 2 then show ?thesis using q assms(1) by (simp add: form_inv_remove_class form_wired_def)
      next
        case 3
        have "form_inv c fs (q\<lparr>dom := dom q\<rparr>)" using q by simp
        from foldl_freeze_inv [OF this] 3 show ?thesis by simp
      qed
    qed
    then show ?thesis using PostResponse True by (simp add: contact_try_def)
  qed
qed

lemma contactSubmit_resume_inv:
  assumes "form_wired e c fs" and "form_inv c fs p"
  shows "form_inv c fs (state_of (contactSubmit_resume c r p))"
proof (cases "contact_try c r p")
  case (Done q)
  then show ?thesis using contact_try_inv [OF assms, of r] by (simp add: contactSubmit_resume_def)
next
  case (Threw er q)
  then have "form_inv c fs q" using contact_try_inv [OF assms, of r] by simp
  then show ?thesis using Threw contact_catch_inv [OF assms(1)] by (simp add: contactSubmit_resume_def)
qed

lemma button_timers_add:
  assumes "button_timers p" and "has_tag (dom p) ''button'' b"
  shows "button_timers (p\<lparr>timers := timers p @ [(due, RestoreButton b x)]\<rparr>)"
  using assms by (simp add: button_timers_def)

lemma validationSubmit_inv:
  assumes "form_inv c fs p"
  shows "form_inv c fs (state_of (validationSubmit vf p))"
proof (cases "querySelector (dom p) (submit_button_of (dom p) vf)")
  case None
  then show ?thesis using assms by (simp add: validationSubmit_def)
next
  case (Some b)
  then have b: "has_tag (dom p) ''button'' b"
    using querySelector_Some by (fastforce simp: submit_button_of_def)
  let ?P = "\<lambda>q. form_inv c fs q \<and> has_tag (dom q) ''button'' b"
  have "?P (state_of (seq [(\<lambda>q. Done (q\<lparr>dom := set_textContent b ''Invio in corso...'' (dom q)\<rparr>)),
                write_el (Some b) (\<lambda>n. n\<lparr>disabled := True\<rparr>),
                setTimeout (RestoreButton b (textContent (dom p) b)) 5000] p))"
  proof (rule seq_state_of [where P = ?P])
    show "?P p" using assms b by simp
    fix s and q :: page
    assume s: "s \<in> set [(\<lambda>q. Done (q\<lparr>dom := set_textContent b ''Invio in corso...'' (dom q)\<rparr>)),
                write_el (Some b) (\<lambda>n. n\<lparr>disabled := True\<rparr>),
                setTimeout (RestoreButton b (textContent (dom p) b)) 5000]" and q: "?P q"
    then consider "s = (\<lambda>q. Done (q\<lparr>dom := set_textContent b ''Invio in corso...'' (dom q)\<rparr>))"
      | "s = write_el (Some b) (\<lambda>n. n\<lparr>disabled := True\<rparr>)"
      | "s = setTimeout (RestoreButton b (textContent (dom p) b)) 5000" by auto
    then show "?P (state_of (s q))"
    proof cases
      case 1
      then show ?thesis using q form_inv_set_textContent [of c fs q b] by simp
    next
      case 2
      then show ?thesis using q form_inv_disable [of c fs q "Some b"]
        by (simp add: write_el_def has_tag_upd)
    next
      case 3
      then show ?thesis using q button_timers_add [of q b]
        by (simp add: setTimeout_def form_inv_def)
    qed
  qed
  then show ?thesis using Some by (simp add: validationSubmit_def Let_def)
qed

lemma field_listeners_inv:
  assumes "form_inv c fs p"
  shows "form_inv c fs (state_of (fieldBlur i v h p))" and "form_inv c fs (state_of (fieldInput i v p))"
proof -
  have add: "form_inv c fs (state_of (write_el (Some i) (classList_add k) q))"
    if "form_inv c fs q" "k \<noteq> ''hidden''" for q k
    using that by (simp add: form_inv_add_class)
  have rem: "form_inv c fs (state_of (write_el (Some i) (classList_remove k) q))"
    if "form_inv c fs q" "k \<noteq> ''hidden''" for q k
    using that by (simp add: form_inv_remove_class)
  have a: "form_inv c fs (state_of (seq [write_el (Some i) (classList_remove ''border-red-500''),
             write_el (Some i) (classList_add ''border-green-500/50'')] p))"
    by (rule seq_state_of [where P = "form_inv c fs", OF _ assms]) (auto simp: add rem)
  have b: "form_inv c fs (state_of (seq [write_el (Some i) (classList_add ''border-red-500''),
             write_el (Some i) (classList_remove ''border-green-500/50'')] p))"
    by (rule seq_state_of [where P = "form_inv c fs", OF _ assms]) (auto simp: add rem)
  show "form_inv c fs (state_of (fieldBlur i v h p))"
    using a b assms by (simp add: fieldBlur_def)
  show "form_inv c fs (state_of (fieldInput i v p))"
    using rem [OF assms, of "''border-red-500''"] assms by (simp add: fieldInput_def)
qed

lemma run_timer_inv:
  assumes w: "form_wired e c fs" and inv: "form_inv c fs q" and ok: "timer_ok (dom q) cb"
  shows "form_inv c fs (state_of (run_timer e cb q))"
proof (cases cb)
  case HideMenu
  have "form_inv c fs (state_of (write_el (Some (mobileMenu e)) (classList_add ''hidden'') q))"
    using inv w by (simp add: form_inv_add_class form_wired_def)
  then show ?thesis using HideMenu inv by simp
next
  case (ThrottleReset k)
  then show ?thesis using inv by simp
next
  case (RestoreButton b x)
  then have b: "has_tag (dom q) ''button'' b" using ok by simp
  let ?q1 = "q\<lparr>dom := set_textContent b x (dom q)\<rparr>"
  have "form_inv c fs ?q1" using inv by (rule form_inv_set_textContent)
  moreover have "has_tag (dom ?q1) ''button'' b" using b by simp
  ultimately have "form_inv c fs (state_of (write_el (Some b) (\<lambda>n. n\<lparr>disabled := False\<rparr>) ?q1))"
    by (rule form_inv_enable_button)
  then show ?thesis using RestoreButton by (simp add: write_el_def)
qed

lemma run_timer_tags:
  "has_tag (dom (state_of (run_timer e cb q))) t j = has_tag (dom q) t j"
  by (cases cb) (simp_all add: write_el_def has_tag_upd)

lemma run_timer_ok:
  "timer_ok (dom (state_of (run_timer e cb q))) x = timer_ok (dom q) x"
  by (cases x) (simp_all add: run_timer_tags)

lemma foldl_timers_inv:
  assumes w: "form_wired e c fs"
  shows "form_inv c fs q0 \<Longrightarrow> list_all (\<lambda>x. timer_ok (dom q0) (snd x)) xs
     \<Longrightarrow> form_inv c fs (foldl (\<lambda>q x. state_of (run_timer e (snd x) (q\<lparr>clock := fst x\<rparr>))) q0 xs)"
proof (induction xs arbitrary: q0)
  case Nil
  then show ?case by simp
next
  case (Cons x xs)
  let ?q1 = "state_of (run_timer e (snd x) (q0\<lparr>clock := fst x\<rparr>))"
  have "form_inv c fs ?q1"
    using run_timer_inv [OF w, of "q0\<lparr>clock := fst x\<rparr>" "snd x"] Cons.prems by simp
  moreover have "list_all (\<lambda>y. timer_ok (dom ?q1) (snd y)) xs"
    using Cons.prems(2) by (simp add: run_timer_ok)
  ultimately show ?case using Cons.IH by simp
qed

lemma advance_inv:
  assumes w: "form_wired e c fs" and inv: "form_inv c fs p"
  shows "form_inv c fs (advance e dt p)"
proof -
  let ?t = "clock p + dt"
  let ?due = "sort_key fst (filter (\<lambda>x. fst x \<le> ?t) (timers p))"
  let ?q0 = "p\<lparr>timers := filter (\<lambda>x. \<not> fst x \<le> ?t) (timers p)\<rparr>"
  have all: "list_all (\<lambda>x. timer_ok (dom p) (snd x)) (timers p)"
    using inv by (simp add: form_inv_def button_timers_def)
  have q0: "form_inv c fs ?q0"
    using inv all by (simp add: form_inv_def button_timers_def list_all_iff)
  have due: "list_all (\<lambda>x. timer_ok (dom ?q0) (snd x)) ?due"
    using all by (simp add: list_all_iff)
  from foldl_timers_inv [OF w q0 due] show ?thesis
    by (simp add: advance_def Let_def)
qed

lemma form_step_inv:
  assumes w: "form_wired e c fs" and inv: "form_inv c fs p"
  shows "form_inv c fs (form_step e c vf p ev)"
proof (cases ev)
  case (SubmitEvent f)
  let ?p1 = "if f = vf then state_of (validationSubmit vf p) else p"
  have p1: "form_inv c fs ?p1" using inv validationSubmit_inv by simp
  have "form_inv c fs (if f = form c then state_of (contactSubmit_begin c ?p1) else ?p1)"
  proof (cases "f = form c")
    case True
    then show ?thesis using contactSubmit_begin_inv [OF w p1] by simp
  next
    case False
    then show ?thesis using p1 by simp
  qed
  then show ?thesis using SubmitEvent by (simp add: form_step_def Let_def)
next
  case (PostSettled r)
  then show ?thesis using contactSubmit_resume_inv [OF w inv] by (simp add: form_step_def)
next
  case (BlurEvent i v h)
  then show ?thesis using field_listeners_inv [OF inv] by (simp add: form_step_def)
next
  case (InputEvent i v)
  then show ?thesis using field_listeners_inv [OF inv] by (simp add: form_step_def)
next
  case (TimePasses dt)
  then show ?thesis using advance_inv [OF w inv] by (simp add: form_step_def)
qed

lemma form_events_inv:
  assumes w: "form_wired e c fs"
  shows "form_inv c fs p \<Longrightarrow> form_inv c fs (form_events e c vf evs p)"
  unfolding form_events_def
  by (induction evs arbitrary: p) (simp_all add: form_step_inv [OF w])

lemma foldl_freeze_class:
  assumes "k \<noteq> ''opacity-60''" and "k \<noteq> ''cursor-not-allowed''"
  shows "has_class (foldl (\<lambda>d i. upd i freeze_field d) d xs) k j = has_class d k j"
proof (induction xs arbitrary: d)
  case Nil
  then show ?case by simp
next
  case (Cons x xs)
  have "has_class (upd x freeze_field d) k j = has_class d k j"
    using assms by (auto simp: has_class_def classList_contains_def nth_upd freeze_field_def)
  then show ?case using Cons.IH by simp
qed

lemma foldl_freeze_disabled:
  assumes "j \<in> set xs" and "j < length d"
  shows "disabled (foldl (\<lambda>d i. upd i freeze_field d) d xs ! j)"
  using assms
proof (induction xs arbitrary: d rule: rev_induct)
  case Nil
  then show ?case by simp
next
  case (snoc x xs)
  show ?case
  proof (cases "j = x")
    case True
    then show ?thesis using snoc.prems(2) by (simp add: nth_upd freeze_field_def)
  next
    case False
    then have "j \<in> set xs" using snoc.prems(1) by simp
    from snoc.IH [OF this snoc.prems(2)] False show ?thesis by (simp add: nth_upd)
  qed
qed

lemma foldl_freeze_fields:
  "querySelectorAll (foldl (\<lambda>d i. upd i freeze_field d) d xs)
      (field_of (foldl (\<lambda>d i. upd i freeze_field d) d xs) fm)
   = querySelectorAll d (field_of d fm)"
  by (induction xs arbitrary: d) (simp_all add: fields_upd)

lemma foldl_freeze_tags:
  "has_tag (foldl (\<lambda>d i. upd i freeze_field d) d xs) t j = has_tag d t j"
  by (induction xs arbitrary: d) (simp_all add: has_tag_upd)

lemma contact_success:
  assumes w: "form_wired e c fs" and btn: "submitBtn c < length (dom p)" and fs: "fs < length (dom p)"
    and tag: "has_tag (dom p) ''button'' (submitBtn c)" and tm: "button_timers p"
  shows "\<exists>q. contactSubmit_resume c (PostResponse True) p = Done q
     \<and> alerts q = alerts p \<and> form_inv c fs q"
proof -
  let ?d1 = "upd fs (classList_remove ''hidden'') (upd (submitBtn c) (classList_add ''hidden'') (dom p))"
  let ?fields = "querySelectorAll ?d1 (field_of ?d1 (form c))"
  let ?d2 = "foldl (\<lambda>d i. upd i freeze_field d) ?d1 ?fields"
  let ?q = "p\<lparr>dom := ?d2\<rparr>"
  have run: "contactSubmit_resume c (PostResponse True) p = Done ?q"
    using w by (simp add: contactSubmit_resume_def contact_try_def write_el_def form_wired_def)
  have hid: "has_class ?d2 ''hidden'' (submitBtn c)" and shown: "\<not> has_class ?d2 ''hidden'' fs"
    using btn fs w by (simp_all add: foldl_freeze_class form_wired_def)
  have "disabled (?d2 ! j)" if "j \<in> set ?fields" for j
  proof -
    have "j < length ?d1" using that by (simp add: set_querySelectorAll)
    from foldl_freeze_disabled [OF that this] show ?thesis .
  qed
  then have dis: "list_all (\<lambda>j. disabled (?d2 ! j)) (querySelectorAll ?d2 (field_of ?d2 (form c)))"
    by (simp add: foldl_freeze_fields list_all_iff)
  have tag2: "has_tag ?d2 ''button'' (submitBtn c)"
    using tag by (simp add: foldl_freeze_tags has_tag_upd)
  have "timer_ok ?d2 cb = timer_ok (dom p) cb" for cb
    by (cases cb) (simp_all add: foldl_freeze_tags has_tag_upd)
  then have tm2: "button_timers ?q" using tm by (simp add: button_timers_def)
  have "form_inv c fs ?q"
    using hid shown dis tag2 tm2 by (simp add: form_inv_def frozen_def)
  then show ?thesis using run by (intro exI [of _ ?q]) simp
qed

subsection \<open>Contact form: a failed submission\<close>

lemma alert_names_address: "includes_str alert_text ''sophie.just4tour@gmail.com''"
  by code_simp

text \<open>The \<^verbatim>\<open>catch\<close> block: the spinner is hidden, the text of the button is shown, the
  button is enabled and the alert is raised.\<close>

lemma contact_failure:
  assumes t: "btnText c = Some t" and s: "btnSpinner c = Some s"
    and r: "r = PostRejected \<or> r = PostResponse False"
  shows "contactSubmit_resume c r p =
     Done (p\<lparr>dom := upd (submitBtn c) (\<lambda>n. n\<lparr>disabled := False\<rparr>)
                     (upd t (classList_remove ''hidden'') (upd s (classList_add ''hidden'') (dom p))),
             alerts := alerts p @ [alert_text]\<rparr>)"
  using assms
  by (auto simp: contactSubmit_resume_def contact_try_def contact_catch_def write_el_def)

lemma form_page_listeners:
  "OnValidationSubmit 9 \<in> set (listeners (state_of (init menu_env form_page)))
   \<and> OnContactSubmit form_closure \<in> set (listeners (state_of (init menu_env form_page)))"
  by code_simp

text \<open>
  Claim C4. On the sample page the submit listener of \<^verbatim>\<open>initFormValidation\<close> and the one
  of \<^verbatim>\<open>initContactForm\<close> are on the same form, and the first runs first. It assigns
  \<^verbatim>\<open>Invio in corso...\<close> to the text of the submit button, which removes the label and the
  spinner from the button. When the POST is rejected, the \<^verbatim>\<open>catch\<close> block enables the
  button and raises the alert, but the label it shows is no longer in the document: the
  button reads \<^verbatim>\<open>Invio in corso...\<close>. Five seconds after the submission the timeout of
  \<^verbatim>\<open>initFormValidation\<close> puts the original text back, as plain text. If the form is
  submitted again before that, at 2 s, the second timeout captures \<^verbatim>\<open>Invio in corso...\<close>
  as the text to restore, and the button reads that for good.
\<close>

theorem contact_failure_label_lost:
  "textContent (dom form_page) 12 = ''Invia messaggio''
   \<and> is_descendant (dom form_page) 12 13 \<and> isConnected (dom form_page ! 13)
   \<and> \<not> disabled (dom (form_events menu_env form_closure 9
          [SubmitEvent 9, PostSettled PostRejected] form_page) ! 12)
   \<and> alerts (form_events menu_env form_closure 9
          [SubmitEvent 9, PostSettled PostRejected] form_page) = [alert_text]
   \<and> textContent (dom (form_events menu_env form_closure 9
          [SubmitEvent 9, PostSettled PostRejected] form_page)) 12 = ''Invio in corso...''
   \<and> \<not> has_class (dom (form_events menu_env form_closure 9
          [SubmitEvent 9, PostSettled PostRejected] form_page)) ''hidden'' 13
   \<and> \<not> isConnected (dom (form_events menu_env form_closure 9
          [SubmitEvent 9, PostSettled PostRejected] form_page) ! 13)
   \<and> \<not> is_descendant (dom (form_events menu_env form_closure 9
          [SubmitEvent 9, PostSettled PostRejected] form_page)) 12 13
   \<and> textContent (dom (form_events menu_env form_closure 9
          [SubmitEvent 9, PostSettled PostRejected, TimePasses 5000] form_page)) 12
        = ''Invia messaggio''
   \<and> \<not> isConnected (dom (form_events menu_env form_closure 9
          [SubmitEvent 9, PostSettled PostRejected, TimePasses 5000] form_page) ! 13)
   \<and> textContent (dom (form_events menu_env form_closure 9
          [SubmitEvent 9, PostSettled PostRejected, TimePasses 2000,
           SubmitEvent 9, PostSettled PostRejected, TimePasses 10000] form_page)) 12
        = ''Invio in corso...''
   \<and> \<not> disabled (dom (form_events menu_env form_closure 9
          [SubmitEvent 9, PostSettled PostRejected, TimePasses 2000,
           SubmitEvent 9, PostSettled PostRejected, TimePasses 10000] form_page) ! 12)
   \<and> timers (form_events menu_env form_closure 9
          [SubmitEvent 9, PostSettled PostRejected, TimePasses 2000,
           SubmitEvent 9, PostSettled PostRejected, TimePasses 10000] form_page) = []"
  by code_simp

text \<open>
  Claim C2. Once the POST has been answered with an ok response, the submit button is
  hidden, the confirmation is shown and every input and textarea of the form is
  disabled, and this holds after every further sequence of events: submit events on the
  form, answers to a POST, blur and input events, and timeouts falling due.
\<close>

theorem contact_form_frozen_after_success:
  assumes "form_wired e c fs" and "submitBtn c < length (dom p)" and "fs < length (dom p)"
    and "has_tag (dom p) ''button'' (submitBtn c)" and "button_timers p"
  shows "\<exists>q. contactSubmit_resume c (PostResponse True) p = Done q \<and> alerts q = alerts p
     \<and> has_class (dom q) ''hidden'' (submitBtn c) \<and> \<not> has_class (dom q) ''hidden'' fs
     \<and> list_all (\<lambda>i. disabled (dom q ! i)) (querySelectorAll (dom q) (field_of (dom q) (form c)))
     \<and> (\<forall>evs. frozen c fs (dom (form_events e c vf evs q)))"
proof -
  from contact_success [OF assms] obtain q where
    q: "contactSubmit_resume c (PostResponse True) p = Done q" "alerts q = alerts p"
    and inv: "form_inv c fs q" by blast
  have "frozen c fs (dom (form_events e c vf evs q))" for evs
    using form_events_inv [OF assms(1) inv, of vf evs] by (simp add: form_inv_def)
  moreover have "frozen c fs (dom q)" using inv by (simp add: form_inv_def)
  ultimately show ?thesis using q by (auto simp: frozen_def)
qed

theorem contact_form_frozen_after_success_witness:
  "frozen form_closure 15 (dom form_succeeded)
   \<and> frozen form_closure 15 (dom (form_events menu_env form_closure 9
        [TimePasses 6000, SubmitEvent 9, PostSettled PostRejected, BlurEvent 10 True True]
        form_succeeded))"
proof -
  have w: "form_wired menu_env form_closure 15"
    by (simp add: form_wired_def form_closure_def menu_env_def)
  have h: "submitBtn form_closure < length (dom form_submitted)" "15 < length (dom form_submitted)"
    "has_tag (dom form_submitted) ''button'' (submitBtn form_closure)" "button_timers form_submitted"
    by code_simp+
  from contact_form_frozen_after_success [OF w h, of 9]
  obtain q where q: "contactSubmit_resume form_closure (PostResponse True) form_submitted = Done q"
    and fr: "frozen form_closure 15 (dom q)"
      "\<forall>evs. frozen form_closure 15 (dom (form_events menu_env form_closure 9 evs q))"
    by (auto simp: frozen_def)
  have "form_succeeded = q" by (simp add: form_succeeded_def q)
  then show ?thesis using fr by blast
qed

subsection \<open>Sequences of steps\<close>

lemma is_done_seq_Cons:
  "is_done (seq (s # ss) p) = (is_done (s p) \<and> is_done (seq ss (state_of (s p))))"
  by (cases "s p") simp_all

lemma state_of_seq_Cons:
  "is_done (s p) \<Longrightarrow> state_of (seq (s # ss) p) = state_of (seq ss (state_of (s p)))"
  by (cases "s p") simp_all

lemma seq_iff:
  assumes "\<And>s c q. (s, c) \<in> set xs \<Longrightarrow> P q \<Longrightarrow> (is_done (s q) = c) \<and> (c \<longrightarrow> P (state_of (s q)))"
    and "P p"
  shows "is_done (seq (map fst xs) p) = list_all snd xs
     \<and> (list_all snd xs \<longrightarrow> P (state_of (seq (map fst xs) p)))"
  using assms
proof (induction xs arbitrary: p)
  case Nil
  then show ?case by simp
next
  case (Cons x xs)
  obtain s c where x: "x = (s, c)" by (cases x)
  have sc: "is_done (s p) = c" "c \<Longrightarrow> P (state_of (s p))"
    using Cons.prems(1) [of s c p] Cons.prems(2) x by auto
  show ?case
  proof (cases c)
    case True
    have ih: "is_done (seq (map fst xs) (state_of (s p))) = list_all snd xs
       \<and> (list_all snd xs \<longrightarrow> P (state_of (seq (map fst xs) (state_of (s p)))))"
      by (rule Cons.IH) (use Cons.prems(1) sc True in auto)
    show ?thesis using True sc ih x
      by (simp add: is_done_seq_Cons state_of_seq_Cons del: seq.simps(2))
  next
    case False
    then show ?thesis using sc x by (simp add: is_done_seq_Cons del: seq.simps(2))
  qed
qed


lemma is_done_seq_append:
  "is_done (seq (xs @ ys) p) = (is_done (seq xs p) \<and> is_done (seq ys (state_of (seq xs p))))"
  by (cases "seq xs p") (simp_all add: seq_append)

lemma seq_all_done:
  assumes "\<And>s q. s \<in> set ss \<Longrightarrow> is_done (s q)"
  shows "is_done (seq ss p)"
  using assms
proof (induction ss arbitrary: p)
  case Nil
  then show ?case by simp
next
  case (Cons s ss)
  then show ?case by (simp add: is_done_seq_Cons del: seq.simps(2))
qed

lemma is_done_addEventListener [simp]: "is_done (addEventListener l p)"
  by (simp add: addEventListener_def)

lemma is_done_attach [simp]: "is_done (attach r l p) = (r \<noteq> None)"
  by (cases r) (simp_all add: attach_def)

lemma dom_addEventListener [simp]: "dom (state_of (addEventListener l p)) = dom p"
  by (simp add: addEventListener_def)

lemma dom_attach [simp]: "dom (state_of (attach r l p)) = dom p"
  by (cases r) (simp_all add: attach_def)

lemma wiring_dom:
  assumes "\<And>s. s \<in> set ss \<Longrightarrow> (\<exists>l. s = addEventListener l) \<or> (\<exists>r l. s = attach r l)"
  shows "dom (state_of (seq ss p)) = dom p"
proof (rule seq_state_of [where P = "\<lambda>q. dom q = dom p"])
  fix s and q :: page
  assume "s \<in> set ss" and "dom q = dom p"
  then show "dom (state_of (s q)) = dom p" using assms [of s] by auto
qed simp

subsection \<open>Which initialisers complete\<close>

lemma is_done_handleNavbarScroll: "is_done (handleNavbarScroll e p) = (navbar e \<noteq> None)"
  by (cases "navbar e") (simp_all add: handleNavbarScroll_def write_el_def)

lemma is_done_initScrollAnimations: "is_done (initScrollAnimations e p)"
  by (simp add: initScrollAnimations_def)

lemma is_done_initEventListeners: "is_done (initEventListeners e p) = (menuToggle e \<noteq> None)"
proof -
  have "is_done (seq (map (\<lambda>l. addEventListener (OnAnchorClick l)) as
          @ map (\<lambda>l. addEventListener (OnMenuLinkClick l)) ms
          @ [addEventListener OnResize, addEventListener OnKeydownMenu]) q)" for as ms q
    by (rule seq_all_done) auto
  then show ?thesis
    unfolding initEventListeners_def
    by (simp add: is_done_seq_Cons del: seq.simps(2))
qed

lemma dom_initEventListeners: "dom (state_of (initEventListeners e p)) = dom p"
  unfolding initEventListeners_def by (rule wiring_dom) auto

lemma is_done_initFormValidation: "is_done (initFormValidation p)"
proof (cases "querySelector (dom p) (has_tag (dom p) ''form'')")
  case None
  then show ?thesis by (simp add: initFormValidation_def)
next
  case (Some f)
  have "is_done (seq (addEventListener (OnValidationSubmit f) #
               concat (map (\<lambda>i. [addEventListener (OnBlur i), addEventListener (OnInput i)])
                         (querySelectorAll (dom p) (field_of (dom p) f)))) p)"
    by (rule seq_all_done) auto
  then show ?thesis using Some by (simp add: initFormValidation_def)
qed

lemma dom_initFormValidation: "dom (state_of (initFormValidation p)) = dom p"
  using initFormValidation_Done [OF is_done_state_of [OF is_done_initFormValidation], of p]
  by simp

lemma is_done_initContactForm:
  "is_done (initContactForm p) =
     (getElementById (dom p) ''contact-form'' = None \<or> getElementById (dom p) ''submit-btn'' \<noteq> None)"
  by (simp add: initContactForm_def Let_def split: option.splits)

lemma dom_initContactForm: "dom (state_of (initContactForm p)) = dom p"
  by (simp add: initContactForm_def Let_def addEventListener_def split: option.splits)

lemma is_done_initParallax: "is_done (initParallax p)"
  by (simp add: initParallax_def split: option.splits)

lemma dom_initParallax: "dom (state_of (initParallax p)) = dom p"
  by (simp add: initParallax_def addEventListener_def split: option.splits)

lemma is_done_initDestinationModal:
  "is_done (initDestinationModal cards p) =
     (case getElementById (dom p) ''destination-modal'' of
        None \<Rightarrow> True
      | Some m \<Rightarrow>
          cards = 0 \<or>
          (getElementById (dom p) ''modal-close'' \<noteq> None \<and>
           querySelector (dom p) (\<lambda>i. is_descendant (dom p) m i \<and> has_class (dom p) ''modal-backdrop'' i) \<noteq> None \<and>
           getElementById (dom p) ''modal-cta-btn'' \<noteq> None \<and>
           querySelector (dom p) (\<lambda>i. is_descendant (dom p) m i \<and> has_class (dom p) ''modal-content'' i) \<noteq> None))"
proof (cases "getElementById (dom p) ''destination-modal''")
  case None
  then show ?thesis by (simp add: initDestinationModal_def Let_def)
next
  case (Some m)
  have cs: "is_done (seq (concat (map (\<lambda>k. [addEventListener (OnCardClick k), addEventListener (OnCardKeydown k)])
                              [0..<cards])) p)"
    by (rule seq_all_done) auto
  show ?thesis using Some cs
    by (simp add: initDestinationModal_def Let_def is_done_seq_append is_done_seq_Cons
        del: seq.simps(2))
qed

subsection \<open>What initialisation leaves in place\<close>

lemma same_element_refl [simp]: "same_element n n"
  by (simp add: same_element_def)

lemma same_elements_refl [simp]: "list_all2 same_element d d"
  by (simp add: list_all2_conv_all_nth)

lemma same_elements_trans:
  "list_all2 same_element d d' \<Longrightarrow> list_all2 same_element d' d'' \<Longrightarrow> list_all2 same_element d d''"
  by (auto simp: list_all2_conv_all_nth same_element_def)

lemma same_elements_upd:
  assumes "\<And>n. same_element n (f n)"
  shows "list_all2 same_element d (upd i f d)"
  by (simp add: list_all2_conv_all_nth nth_upd assms)

lemma same_elements_foldl:
  assumes "\<And>n. same_element n (f n)"
  shows "list_all2 same_element d (foldl (\<lambda>d l. upd l f d) d ls)"
proof (induction ls arbitrary: d)
  case Nil
  then show ?case by simp
next
  case (Cons l ls)
  show ?case
    using same_elements_trans [OF same_elements_upd [of f d l, OF assms] Cons.IH [of "upd l f d"]]
    by simp
qed

lemma same_element_writes [simp]:
  "same_element n (classList_add ''scrolled'' n)" "same_element n (classList_remove ''scrolled'' n)"
  "same_element n (classList_add ''visible'' n)" "same_element n (n\<lparr>innerHTML := h\<rparr>)"
  by (simp_all add: same_element_def) (auto simp: frame_def)

lemma same_elements_frame:
  assumes "list_all2 same_element d d'"
  shows "map frame d' = map frame d"
  using assms by (auto simp: list_all2_conv_all_nth same_element_def intro: nth_equalityI)

lemma same_elements_id:
  assumes "list_all2 same_element d d'"
  shows "getElementById d' x = getElementById d x"
  unfolding getElementById_def
proof (rule querySelector_cong)
  show "map frame d' = map frame d" using assms by (rule same_elements_frame)
  fix i assume "i < length d"
  then have "attrs (d' ! i) = attrs (d ! i)"
    using assms by (simp add: list_all2_conv_all_nth same_element_def)
  then show "has_id d' x i = has_id d x i" by (simp add: has_id_def getAttribute_def)
qed

lemma same_elements_below:
  assumes "list_all2 same_element d d'" and "c \<noteq> ''scrolled''" and "c \<noteq> ''visible''"
  shows "querySelector d' (\<lambda>i. is_descendant d' m i \<and> has_class d' c i)
       = querySelector d (\<lambda>i. is_descendant d m i \<and> has_class d c i)"
proof (rule querySelector_cong)
  show "map frame d' = map frame d" using assms(1) by (rule same_elements_frame)
  fix i assume i: "i < length d"
  then have "set (classes (d' ! i)) - {''scrolled'', ''visible''}
      = set (classes (d ! i)) - {''scrolled'', ''visible''}"
    using assms(1) by (simp add: list_all2_conv_all_nth same_element_def)
  then have "has_class d' c i = has_class d c i"
    using assms(2,3) by (auto simp: has_class_def classList_contains_def)
  moreover have "is_descendant d' m i = is_descendant d m i"
    using is_descendant_frame [OF same_elements_frame [OF assms(1)] i] .
  ultimately show "(is_descendant d' m i \<and> has_class d' c i) = (is_descendant d m i \<and> has_class d c i)"
    by simp
qed

lemma same_elements_handleNavbarScroll:
  "list_all2 same_element (dom p) (dom (state_of (handleNavbarScroll e p)))"
  by (cases "navbar e") (simp_all add: handleNavbarScroll_def write_el_def same_elements_upd)

lemma same_elements_initScrollAnimations:
  "list_all2 same_element (dom p) (dom (state_of (initScrollAnimations e p)))"
  by (simp add: initScrollAnimations_def same_elements_foldl)

lemma same_elements_loadDestinations:
  "list_all2 same_element (dom p) (dom (loadDestinations od p))"
  by (simp add: loadDestinations_def same_elements_upd split: option.splits sum.splits)

lemma dom_console_log [simp]: "dom (state_of (console_log s p)) = dom p" "is_done (console_log s p)"
  by (simp_all add: console_log_def)

lemma init_completes:
  "is_done (init e p) =
     (navbar e \<noteq> None \<and> menuToggle e \<noteq> None \<and>
      (getElementById (dom p) ''contact-form'' = None \<or> getElementById (dom p) ''submit-btn'' \<noteq> None))
   \<and> (is_done (init e p) \<longrightarrow> list_all2 same_element (dom p) (dom (state_of (init e p))))"
proof -
  let ?P = "\<lambda>q. list_all2 same_element (dom p) (dom q)"
  let ?c = "getElementById (dom p) ''contact-form'' = None \<or> getElementById (dom p) ''submit-btn'' \<noteq> None"
  let ?xs = "[(handleNavbarScroll e, navbar e \<noteq> None), (initScrollAnimations e, True),
              (initEventListeners e, menuToggle e \<noteq> None), (initFormValidation, True),
              (initContactForm, ?c), (initParallax, True),
              (console_log (''%c'' @ [CHR 0xE2, CHR 0x9C, CHR 0x88, CHR 0xEF, CHR 0xB8, CHR 0x8F]
                       @ '' Sophie Travel Designer''), True),
              (console_log ''%cViaggi su misura, pensati per te'', True)]"
  have "is_done (seq (map fst ?xs) p) = list_all snd ?xs
      \<and> (list_all snd ?xs \<longrightarrow> ?P (state_of (seq (map fst ?xs) p)))"
  proof (rule seq_iff [where P = ?P])
    show "?P p" by simp
  next
    fix s c and q :: page
    assume m: "(s, c) \<in> set ?xs" and P: "?P q"
    have keep: "dom (state_of (s q)) = dom q \<Longrightarrow> ?P (state_of (s q))" using P by simp
    from m consider
        (nav) "s = handleNavbarScroll e" "c = (navbar e \<noteq> None)"
      | (anim) "s = initScrollAnimations e" "c"
      | (wire) "s = initEventListeners e" "c = (menuToggle e \<noteq> None)"
      | (valid) "s = initFormValidation" "c"
      | (contact) "s = initContactForm" "c = ?c"
      | (par) "s = initParallax" "c"
      | (log) l where "s = console_log l" "c"
      by auto
    then show "(is_done (s q) = c) \<and> (c \<longrightarrow> ?P (state_of (s q)))"
    proof cases
      case nav
      then show ?thesis
        using same_elements_trans [OF P same_elements_handleNavbarScroll [of q e]]
        by (simp add: is_done_handleNavbarScroll)
    next
      case anim
      then show ?thesis
        using same_elements_trans [OF P same_elements_initScrollAnimations [of q e]]
        by (simp add: is_done_initScrollAnimations)
    next
      case wire
      then show ?thesis using keep
        by (simp add: is_done_initEventListeners dom_initEventListeners)
    next
      case valid
      then show ?thesis using keep
        by (simp add: is_done_initFormValidation dom_initFormValidation)
    next
      case contact
      then show ?thesis using keep
        by (simp add: is_done_initContactForm dom_initContactForm same_elements_id [OF P])
    next
      case par
      then show ?thesis using keep
        by (simp add: is_done_initParallax dom_initParallax)
    next
      case log
      then show ?thesis using keep by simp
    qed
  qed
  moreover have "seq (map fst ?xs) p = init e p" by (simp add: init_def)
  ultimately show ?thesis by simp
qed

lemma initDestinationModal_same:
  assumes "list_all2 same_element (dom p) (dom q)"
  shows "is_done (initDestinationModal cards q) = is_done (initDestinationModal cards p)"
  unfolding is_done_initDestinationModal
  by (simp add: same_elements_id [OF assms] same_elements_below [OF assms] split: option.splits)

lemma bootstrap_completes:
  "is_done (bootstrap e od cards ob p) =
     (is_done (init e p) \<and> is_done (initDestinationModal cards p))"
proof (cases "is_done (init e p)")
  case False
  then show ?thesis by (simp add: bootstrap_def is_done_seq_Cons del: seq.simps(2))
next
  case True
  then have "list_all2 same_element (dom p) (dom (state_of (init e p)))"
    using init_completes [of e p] by simp
  then have "list_all2 same_element (dom p) (dom (loadDestinations od (state_of (init e p))))"
    by (rule same_elements_trans) (rule same_elements_loadDestinations)
  then show ?thesis
    using True
    by (simp add: bootstrap_def is_done_seq_Cons initDestinationModal_same del: seq.simps(2))
qed

lemma script_start_env:
  "script_start d = Inr e \<Longrightarrow>
     navbar e = getElementById d ''navbar'' \<and> menuToggle e = getElementById d ''menu-toggle''"
  by (auto simp: script_start_def split: option.splits)

lemma script_start_throws:
  "(\<exists>error. script_start d = Inl error) = (getElementById d ''mobile-menu'' = None)"
  by (auto simp: script_start_def split: option.splits)

lemma run_script_completes:
  "is_done (run_script od cards ob p) = dom_contract cards (dom p)"
proof (cases "script_start (dom p)")
  case (Inl error)
  then have "getElementById (dom p) ''mobile-menu'' = None"
    using script_start_throws [of "dom p"] by blast
  then show ?thesis using Inl by (simp add: run_script_def dom_contract_def)
next
  case (Inr e)
  then have m: "getElementById (dom p) ''mobile-menu'' \<noteq> None"
    using script_start_throws [of "dom p"] by auto
  show ?thesis
    using Inr m script_start_env [OF Inr] init_completes [of e p]
    by (simp add: run_script_def bootstrap_completes is_done_initDestinationModal dom_contract_def)
qed

text \<open>
  Claim C1, as amended. Each initialiser that checks for its element returns at once, leaving the
  page as it is, when the element is absent: \<^verbatim>\<open>initFormValidation\<close> without a form,
  \<^verbatim>\<open>initContactForm\<close> without \<^verbatim>\<open>contact-form\<close>, \<^verbatim>\<open>initParallax\<close> without a hero image,
  \<^verbatim>\<open>initDestinationModal\<close> without \<^verbatim>\<open>destination-modal\<close>, and the two loaders without
  their grid. The script as a whole runs to completion, whatever the two fetches yield,
  exactly on the pages that hold the elements it uses without a check.
\<close>

theorem guarded_initialisation:
  "(querySelector (dom p) (has_tag (dom p) ''form'') = None \<longrightarrow> initFormValidation p = Done p)
   \<and> (getElementById (dom p) ''contact-form'' = None \<longrightarrow> initContactForm p = Done p)
   \<and> (querySelector (dom p) (hero_image (dom p)) = None \<longrightarrow> initParallax p = Done p)
   \<and> (getElementById (dom p) ''destination-modal'' = None
        \<longrightarrow> initDestinationModal cards p = Done p)
   \<and> (getElementById (dom p) ''destinations-grid'' = None \<longrightarrow> loadDestinations od p = p)
   \<and> (getElementById (dom p) ''brochures-grid'' = None \<longrightarrow> loadBrochures ob p = p)
   \<and> (is_done (run_script od cards ob p) = dom_contract cards (dom p))"
proof (intro conjI impI)
  show "is_done (run_script od cards ob p) = dom_contract cards (dom p)"
    by (rule run_script_completes)
qed (simp_all add: initFormValidation_def initContactForm_def initParallax_def
      initDestinationModal_def loadDestinations_def loadBrochures_def Let_def)

theorem guarded_initialisation_witness:
  "initFormValidation menu_page = Done menu_page
   \<and> initContactForm menu_page = Done menu_page
   \<and> initParallax menu_page = Done menu_page
   \<and> initDestinationModal 3 menu_page = Done menu_page
   \<and> loadDestinations FetchRejected menu_page = menu_page
   \<and> loadBrochures FetchRejected menu_page = menu_page
   \<and> is_done (run_script FetchRejected 3 FetchRejected menu_page)"
proof -
  have h: "querySelector (dom menu_page) (has_tag (dom menu_page) ''form'') = None"
    "getElementById (dom menu_page) ''contact-form'' = None"
    "querySelector (dom menu_page) (hero_image (dom menu_page)) = None"
    "getElementById (dom menu_page) ''destination-modal'' = None"
    "getElementById (dom menu_page) ''destinations-grid'' = None"
    "getElementById (dom menu_page) ''brochures-grid'' = None"
    "dom_contract 3 (dom menu_page)"
    by code_simp+
  from guarded_initialisation [where p = menu_page and cards = 3
      and od = FetchRejected and ob = FetchRejected] h
  show ?thesis by simp
qed

text \<open>A page without the element \<^verbatim>\<open>mobile-menu\<close>: the script throws at its fourth
  statement, before anything is initialised.\<close>

theorem script_throws_without_mobile_menu:
  "getElementById (dom no_menu_page) ''mobile-menu'' = None
   \<and> script_start (dom no_menu_page) = Inl TypeError
   \<and> \<not> is_done (run_script FetchRejected 0 FetchRejected no_menu_page)"
  by code_simp

end
